theory Spec2Isabelle
  imports Main "HOL-Library.Sublist" "HOL-Library.Multiset"
begin

section \<open>JavaScript strings and arrays\<close>

text \<open>
  A JavaScript string is modelled as a \<^typ>\<open>string\<close>, one \<^typ>\<open>char\<close> per code unit.
  \<open>s.startsWith(p)\<close> is \<^term>\<open>prefix p s\<close>, \<open>s.endsWith(p)\<close> is \<^term>\<open>suffix p s\<close>,
  \<open>s.substring(0, k)\<close> is \<^term>\<open>take k s\<close> and \<open>s.substring(k)\<close> is \<^term>\<open>drop k s\<close>.
\<close>

definition js_includes :: "string \<Rightarrow> string \<Rightarrow> bool" where
  \<comment> \<open>\<open>s.includes(p)\<close>: \<open>p\<close> occurs at some position of \<open>s\<close>.\<close>
  "js_includes s p = list_ex (\<lambda>i. prefix p (drop i s)) [0..<Suc (length s)]"

definition js_lastIndexOf :: "string \<Rightarrow> string \<Rightarrow> int" where
  \<comment> \<open>\<open>s.lastIndexOf(p)\<close>: the greatest position where \<open>p\<close> occurs, \<open>-1\<close> when there is none.\<close>
  "js_lastIndexOf s p =
     (case filter (\<lambda>i. prefix p (drop i s)) (rev [0..<Suc (length s)]) of
        [] \<Rightarrow> - 1
      | i # _ \<Rightarrow> int i)"

fun js_join :: "string list \<Rightarrow> string \<Rightarrow> string" where
  \<comment> \<open>\<open>xs.join(sep)\<close>\<close>
  "js_join [] sep = []"
| "js_join [x] sep = x"
| "js_join (x # y # ys) sep = x @ sep @ js_join (y # ys) sep"

definition js_string_of :: "string option \<Rightarrow> string" where
  \<comment> \<open>\<open>join\<close> prints an \<open>undefined\<close> element as the empty string.\<close>
  "js_string_of v = (case v of None \<Rightarrow> [] | Some s \<Rightarrow> s)"

fun findIndex :: "('a \<Rightarrow> bool) \<Rightarrow> 'a list \<Rightarrow> nat option" where
  \<comment> \<open>\<open>xs.findIndex(P)\<close>, with \<open>None\<close> for \<open>-1\<close>.\<close>
  "findIndex P [] = None"
| "findIndex P (x # xs) =
     (if P x then Some 0 else (case findIndex P xs of None \<Rightarrow> None | Some i \<Rightarrow> Some (Suc i)))"

definition splice1 :: "nat \<Rightarrow> 'a list \<Rightarrow> 'a list" where
  \<comment> \<open>\<open>xs.splice(i, 1)\<close>: the array after the removal.\<close>
  "splice1 i xs = take i xs @ drop (Suc i) xs"


section \<open>Symbol records (parser/CppParser.ts)\<close>

record reference =
  ref_file :: string
  ref_line :: int
  ref_column :: int
  ref_kind :: string

text \<open>
  The interface \<open>Symbol\<close>. TypeScript's \<open>name: string\<close> is erased at run time: a record
  built without the property reads \<open>undefined\<close>, which \<open>scoreDefinition\<close> guards against
  (\<open>def.name && typeof def.name === 'string'\<close>); \<^term>\<open>None\<close> is that case. The optional
  properties \<open>type\<close> and \<open>signature\<close> are options as well. \<open>oid\<close> is the identity of the
  JavaScript object: two records built by two object literals differ in it, and
  \<open>new Set\<close> compares by it.
\<close>

record symbol =
  name :: "string option"
  kind :: string
  src_file :: string   \<comment> \<open>the property \<open>file\<close>\<close>
  line :: int
  column :: int
  scope :: string
  type_str :: "string option"
  signature :: "string option"
  isDefinition :: bool
  isDeclaration :: bool
  references :: "reference list"
  oid :: nat


section \<open>Scoring of a candidate definition (extension.ts)\<close>

definition getUnqualifiedName :: "string \<Rightarrow> string" where
  "getUnqualifiedName nm =
     (let idx = js_lastIndexOf nm ''::''
      in if idx = - 1 then nm else drop (nat (idx + 2)) nm)"

fun suffixBonus :: "string list \<Rightarrow> string \<Rightarrow> int \<Rightarrow> int" where
  \<comment> \<open>\<open>for (const c of candidateScopes) { if (c && scope.endsWith(c)) { score += 12; break; } }\<close>\<close>
  "suffixBonus [] sc score = score"
| "suffixBonus (c # cs) sc score =
     (if c \<noteq> [] \<and> suffix c sc then score + 12 else suffixBonus cs sc score)"

definition qualifierOf :: "string \<Rightarrow> string" where
  \<comment> \<open>\<open>word.substring(0, Math.max(0, word.lastIndexOf('::')))\<close>\<close>
  "qualifierOf word = take (nat (max 0 (js_lastIndexOf word ''::''))) word"

definition scoreDefinition ::
  "symbol \<Rightarrow> string \<Rightarrow> string list \<Rightarrow> string \<Rightarrow> string \<Rightarrow> int" where
  \<comment> \<open>\<open>def.scope || ''\<close> is \<open>def.scope\<close> for every string.\<close>
  "scoreDefinition def currentFile candidateScopes word targetName =
     (let score0 = 0;
          score1 = (if src_file def = currentFile then score0 + 5 else score0);
          score2 = (if List.member candidateScopes (scope def) then score1 + 20 else score1);
          score3 = suffixBonus candidateScopes (scope def) score2;
          score4 =
            (if js_includes word ''::'' then
               (let qualifier = qualifierOf word;
                    s1 = (if (case name def of
                                None \<Rightarrow> False
                              | Some n \<Rightarrow> n \<noteq> [] \<and> prefix (qualifier @ ''::'') n)
                          then score3 + 15 else score3);
                    s2 = (if suffix qualifier (scope def) then s1 + 10 else s1)
                in s2)
             else score3);
          score5 = (if name def = Some targetName then score4 + 2 else score4);
          score6 = (if (case name def of
                          None \<Rightarrow> False
                        | Some n \<Rightarrow> suffix (''::'' @ targetName) n)
                    then score5 + 1 else score5);
          score7 = (if isDefinition def \<and> \<not> isDeclaration def then score6 + 3 else score6)
      in score7)"

text \<open>
  The identifier text, in the words of the specification: a text is qualified when
  \<open>::\<close> occurs in it; its qualifier is what stands before the last occurrence of \<open>::\<close> and
  its unqualified tail is what stands after it; an unqualified text is its own tail.
  These are stated with \<^const>\<open>sublist\<close> and \<open>@\<close>, not with the code's index arithmetic.
\<close>

definition lastSeparatorSplit :: "string \<Rightarrow> string \<Rightarrow> string \<Rightarrow> bool" where
  \<comment> \<open>\<open>word\<close> is \<open>q::tail\<close> and no \<open>::\<close> starts further right than the one shown\<close>
  "lastSeparatorSplit word q tail =
     (word = q @ ''::'' @ tail \<and> \<not> sublist ''::'' ('':'' @ tail))"


text \<open>
  The scoring table of the specification, one summand per row. \<open>qualifier\<close> is \<^term>\<open>None\<close>
  for an unqualified identifier text and the qualifier of a qualified one.
\<close>

definition nameStartsWith :: "symbol \<Rightarrow> string \<Rightarrow> bool" where
  "nameStartsWith def p = (case name def of None \<Rightarrow> False | Some n \<Rightarrow> prefix p n)"

definition nameEndsWith :: "symbol \<Rightarrow> string \<Rightarrow> bool" where
  "nameEndsWith def p = (case name def of None \<Rightarrow> False | Some n \<Rightarrow> suffix p n)"

definition bonus :: "bool \<Rightarrow> int \<Rightarrow> int" where
  "bonus c k = (if c then k else 0)"

definition tableScore ::
  "symbol \<Rightarrow> string \<Rightarrow> string list \<Rightarrow> string option \<Rightarrow> string \<Rightarrow> int" where
  "tableScore def currentFile candidateScopes qualifier targetName =
       bonus (src_file def = currentFile) 5
     + bonus (list_ex (\<lambda>c. scope def = c) candidateScopes) 20
     + bonus (list_ex (\<lambda>c. c \<noteq> [] \<and> suffix c (scope def)) candidateScopes) 12
     + bonus (case qualifier of None \<Rightarrow> False | Some q \<Rightarrow> nameStartsWith def (q @ ''::'')) 15
     + bonus (case qualifier of None \<Rightarrow> False | Some q \<Rightarrow> suffix q (scope def)) 10
     + bonus (name def = Some targetName) 2
     + bonus (nameEndsWith def (''::'' @ targetName)) 1
     + bonus (isDefinition def \<and> \<not> isDeclaration def) 3"


section \<open>The name index (database/SymbolDatabase.ts)\<close>

text \<open>
  \<open>symbols\<close> is the table from file to symbol list, \<open>symbolIndex\<close> the table from name to
  bucket. A \<open>Map\<close> takes any value as key, \<open>undefined\<close> included, so the keys of the
  name index are \<^typ>\<open>string option\<close>. The reference index is not touched by the
  operations below and is left out.
\<close>

record symbol_db =
  symbols :: "string \<rightharpoonup> symbol list"
  symbolIndex :: "string option \<rightharpoonup> symbol list"

definition empty_db :: symbol_db where
  "empty_db = \<lparr>symbols = Map.empty, symbolIndex = Map.empty\<rparr>"

definition unindexSymbol ::
  "(string option \<rightharpoonup> symbol list) \<Rightarrow> symbol \<Rightarrow> (string option \<rightharpoonup> symbol list)" where
  \<comment> \<open>body of the loop of \<open>removeFile\<close>\<close>
  "unindexSymbol idx smb =
     (case idx (name smb) of
        None \<Rightarrow> idx
      | Some symbolsWithName \<Rightarrow>
          (case findIndex (\<lambda>s. src_file s = src_file smb \<and> line s = line smb) symbolsWithName of
             None \<Rightarrow> idx
           | Some index \<Rightarrow>
               (let spliced = splice1 index symbolsWithName
                in if length spliced = 0 then idx(name smb := None)
                   else idx(name smb \<mapsto> spliced))))"

definition removeFile :: "string \<Rightarrow> symbol_db \<Rightarrow> symbol_db" where
  "removeFile filePath db =
     (case symbols db filePath of
        None \<Rightarrow> db
      | Some oldSymbols \<Rightarrow>
          db\<lparr>symbolIndex := foldl unindexSymbol (symbolIndex db) oldSymbols,
             symbols := (symbols db)(filePath := None)\<rparr>)"

definition indexSymbol ::
  "(string option \<rightharpoonup> symbol list) \<Rightarrow> symbol \<Rightarrow> (string option \<rightharpoonup> symbol list)" where
  \<comment> \<open>body of the loop of \<open>updateFile\<close>\<close>
  "indexSymbol idx smb =
     (let idx1 = (if idx (name smb) = None then idx(name smb \<mapsto> []) else idx)
      in case idx1 (name smb) of
           None \<Rightarrow> idx1
         | Some bucket \<Rightarrow> idx1(name smb \<mapsto> bucket @ [smb]))"

definition updateFile :: "string \<Rightarrow> symbol list \<Rightarrow> symbol_db \<Rightarrow> symbol_db" where
  "updateFile filePath syms db =
     (let db1 = removeFile filePath db;
          db2 = db1\<lparr>symbols := (symbols db1)(filePath \<mapsto> syms)\<rparr>
      in db2\<lparr>symbolIndex := foldl indexSymbol (symbolIndex db2) syms\<rparr>)"

definition findSymbolsByName :: "symbol_db \<Rightarrow> string \<Rightarrow> symbol list" where
  "findSymbolsByName db nm = (case symbolIndex db (Some nm) of None \<Rightarrow> [] | Some bucket \<Rightarrow> bucket)"

definition findDefinitions :: "symbol_db \<Rightarrow> string \<Rightarrow> symbol list" where
  "findDefinitions db nm = filter isDefinition (findSymbolsByName db nm)"

definition getSymbolsInFile :: "symbol_db \<Rightarrow> string \<Rightarrow> symbol list" where
  "getSymbolsInFile db filePath = (case symbols db filePath of None \<Rightarrow> [] | Some syms \<Rightarrow> syms)"

text \<open>The bucket of any key, the absent name included; empty when the key is not in the index.\<close>

definition bucketOf :: "symbol_db \<Rightarrow> string option \<Rightarrow> symbol list" where
  "bucketOf db k = (case symbolIndex db k of None \<Rightarrow> [] | Some bucket \<Rightarrow> bucket)"

datatype db_op = UpdateFile string "symbol list" | RemoveFile string

fun apply_op :: "symbol_db \<Rightarrow> db_op \<Rightarrow> symbol_db" where
  "apply_op db (UpdateFile f syms) = updateFile f syms db"
| "apply_op db (RemoveFile f) = removeFile f db"

definition run_ops :: "db_op list \<Rightarrow> symbol_db" where
  \<comment> \<open>a sequence of operations from the empty index\<close>
  "run_ops ops = foldl apply_op empty_db ops"

fun parsed_op :: "db_op \<Rightarrow> bool" where
  \<comment> \<open>every record handed to \<open>updateFile(f, _)\<close> carries \<open>file = f\<close>, as the parser writes it\<close>
  "parsed_op (UpdateFile f syms) = list_all (\<lambda>s. src_file s = f) syms"
| "parsed_op (RemoveFile f) = True"


section \<open>Scopes (scope/ScopeManager.ts)\<close>

text \<open>
  Scope objects are mutable and shared: a scope sits on the stack of open scopes and in
  the \<open>children\<close> array of its parent at once, and points back to the parent. The objects
  of one call of \<open>buildScopeTree\<close> live in an arena, a list indexed by allocation order;
  \<open>children\<close> and \<open>parent\<close> hold indices. A reference to a scope object is the arena of its
  build with its index; an array of scopes of one build is the arena with the indices.

  The functions that follow \<open>children\<close> or \<open>parent\<close> links take fuel, the number of links
  they may follow in depth, and return \<^term>\<open>None\<close> when it runs out; the callers pass
  the size of the arena.
\<close>

record scope_obj =
  scope_name :: "string option"   \<comment> \<open>the property \<open>name\<close>\<close>
  scope_type :: string
  startLine :: int
  endLine :: int
  scope_symbols :: "symbol list"   \<comment> \<open>the property \<open>symbols\<close>\<close>
  children :: "nat list"
  parent :: "nat option"

type_synonym arena = "scope_obj list"
type_synonym scope_ref = "arena \<times> nat"
type_synonym scope_array = "arena \<times> nat list"

record scope_manager =
  fileScopes :: "string \<rightharpoonup> scope_array"
  globalScopes :: "string option \<rightharpoonup> scope_ref"

definition empty_manager :: scope_manager where
  "empty_manager = \<lparr>fileScopes = Map.empty, globalScopes = Map.empty\<rparr>"

definition isScopeSymbol :: "symbol \<Rightarrow> bool" where
  "isScopeSymbol smb = List.member [''namespace'', ''class'', ''struct'', ''function''] (kind smb)"

definition createScope :: "symbol \<Rightarrow> scope_obj" where
  "createScope smb =
     \<lparr>scope_name = name smb, scope_type = kind smb, startLine = line smb, endLine = line smb,
      scope_symbols = [], children = [], parent = None\<rparr>"

fun popEnded :: "arena \<Rightarrow> nat list \<Rightarrow> int \<Rightarrow> nat list" where
  \<comment> \<open>\<open>while (stack.length > 0 && stack[stack.length - 1].endLine < line) stack.pop()\<close>;
      the top of the stack is the head of the list\<close>
  "popEnded A [] ln = []"
| "popEnded A (tp # below) ln =
     (if endLine (A ! tp) < ln then popEnded A below ln else tp # below)"

definition processSymbol ::
  "arena \<times> nat list \<times> nat list \<Rightarrow> symbol \<Rightarrow> arena \<times> nat list \<times> nat list" where
  \<comment> \<open>body of the loop of \<open>buildScopeTree\<close> over the arena, \<open>scopes\<close> and \<open>scopeStack\<close>\<close>
  "processSymbol st smb =
     (case st of (A, scopes, scopeStack) \<Rightarrow>
        (case (if isScopeSymbol smb then
                 (let sc = createScope smb;
                      new = length A;
                      stack1 = popEnded A scopeStack (line smb)
                  in case stack1 of
                       [] \<Rightarrow> (A @ [sc], scopes @ [new], [new])
                     | tp # below \<Rightarrow>
                         (A[tp := (A ! tp)\<lparr>children := children (A ! tp) @ [new]\<rparr>]
                            @ [sc\<lparr>parent := Some tp\<rparr>],
                          scopes, new # stack1))
               else (A, scopes, scopeStack)) of
           (A1, scopes1, stack2) \<Rightarrow>
             (case stack2 of
                [] \<Rightarrow> (A1, scopes1, stack2)
              | tp # below \<Rightarrow>
                  (A1[tp := (A1 ! tp)\<lparr>scope_symbols := scope_symbols (A1 ! tp) @ [smb]\<rparr>],
                   scopes1, stack2))))"

fun updateScopeEndLines :: "nat \<Rightarrow> arena \<Rightarrow> nat list \<Rightarrow> arena option" where
  "updateScopeEndLines fuel A [] = Some A"
| "updateScopeEndLines 0 A (i # rest) = None"
| "updateScopeEndLines (Suc fuel) A (i # rest) =
     (let sc = A ! i;
          scopeSymbols = filter (\<lambda>s. line s \<ge> startLine sc \<and> kind s \<noteq> scope_type sc)
                           (scope_symbols sc);
          A1 = (if length scopeSymbols > 0
                then A[i := sc\<lparr>endLine := line (last scopeSymbols)\<rparr>] else A)
      in case updateScopeEndLines fuel A1 (children (A1 ! i)) of
           None \<Rightarrow> None
         | Some A2 \<Rightarrow> updateScopeEndLines (Suc fuel) A2 rest)"

fun findScopeAtLine :: "nat \<Rightarrow> arena \<Rightarrow> nat list \<Rightarrow> int \<Rightarrow> nat option option" where
  \<comment> \<open>\<open>Some None\<close> is \<open>undefined\<close>, \<open>None\<close> is out of fuel\<close>
  "findScopeAtLine fuel A [] ln = Some None"
| "findScopeAtLine 0 A (i # rest) ln = None"
| "findScopeAtLine (Suc fuel) A (i # rest) ln =
     (if ln \<ge> startLine (A ! i) \<and> ln \<le> endLine (A ! i) then
        (case findScopeAtLine fuel A (children (A ! i)) ln of
           None \<Rightarrow> None
         | Some (Some childScope) \<Rightarrow> Some (Some childScope)
         | Some None \<Rightarrow> Some (Some i))
      else findScopeAtLine (Suc fuel) A rest ln)"

fun updateGlobalScopes ::
  "nat \<Rightarrow> arena \<Rightarrow> nat list \<Rightarrow> (string option \<rightharpoonup> scope_ref)
     \<Rightarrow> (string option \<rightharpoonup> scope_ref) option" where
  "updateGlobalScopes fuel A [] G = Some G"
| "updateGlobalScopes 0 A (i # rest) G = None"
| "updateGlobalScopes (Suc fuel) A (i # rest) G =
     (case updateGlobalScopes fuel A (children (A ! i)) (G(scope_name (A ! i) \<mapsto> (A, i))) of
        None \<Rightarrow> None
      | Some G1 \<Rightarrow> updateGlobalScopes (Suc fuel) A rest G1)"

fun removeScopeFromGlobalIndex ::
  "nat \<Rightarrow> arena \<Rightarrow> nat list \<Rightarrow> (string option \<rightharpoonup> scope_ref)
     \<Rightarrow> (string option \<rightharpoonup> scope_ref) option" where
  \<comment> \<open>\<open>removeScopeFromGlobalIndex\<close> on every scope of an array, in order: the loop of
      \<open>removeFile\<close> over the file's scopes and the loop over \<open>scope.children\<close>\<close>
  "removeScopeFromGlobalIndex fuel A [] G = Some G"
| "removeScopeFromGlobalIndex 0 A (i # rest) G = None"
| "removeScopeFromGlobalIndex (Suc fuel) A (i # rest) G =
     (case removeScopeFromGlobalIndex fuel A (children (A ! i)) (G(scope_name (A ! i) := None)) of
        None \<Rightarrow> None
      | Some G1 \<Rightarrow> removeScopeFromGlobalIndex (Suc fuel) A rest G1)"

fun hierarchyLoop :: "nat \<Rightarrow> arena \<Rightarrow> nat option \<Rightarrow> nat list \<Rightarrow> nat list option" where
  \<comment> \<open>\<open>while (current) { hierarchy.unshift(current); current = current.parent; }\<close>\<close>
  "hierarchyLoop fuel A None hierarchy = Some hierarchy"
| "hierarchyLoop 0 A (Some current) hierarchy = None"
| "hierarchyLoop (Suc fuel) A (Some current) hierarchy =
     hierarchyLoop fuel A (parent (A ! current)) (current # hierarchy)"

definition getScopeHierarchy :: "scope_ref \<Rightarrow> nat list option" where
  \<comment> \<open>the scopes of the hierarchy, as indices in the arena of the given scope\<close>
  "getScopeHierarchy sc =
     (case sc of (A, i) \<Rightarrow> hierarchyLoop (length A) A (parent (A ! i)) [i])"

definition getScopePath :: "scope_ref \<Rightarrow> string option" where
  "getScopePath sc =
     (case getScopeHierarchy sc of
        None \<Rightarrow> None
      | Some hierarchy \<Rightarrow>
          Some (js_join (map (\<lambda>i. js_string_of (scope_name (fst sc ! i))) hierarchy) ''::''))"

definition scopeForest :: "symbol list \<Rightarrow> arena \<times> nat list \<times> nat list" where
  \<comment> \<open>the loop of \<open>buildScopeTree\<close> over the sorted symbols\<close>
  "scopeForest sortedSymbols = foldl processSymbol ([], [], []) sortedSymbols"

definition storeScopes ::
  "string \<Rightarrow> arena \<times> nat list \<times> nat list \<Rightarrow> scope_manager \<Rightarrow> (scope_array \<times> scope_manager) option" where
  \<comment> \<open>\<open>buildScopeTree\<close> after its loop: end lines, \<open>fileScopes\<close>, \<open>globalScopes\<close>\<close>
  "storeScopes filePath built sm =
     (case built of (A, scopes, scopeStack) \<Rightarrow>
        (case updateScopeEndLines (length A) A scopes of
           None \<Rightarrow> None
         | Some A1 \<Rightarrow>
             (let sm1 = sm\<lparr>fileScopes := (fileScopes sm)(filePath \<mapsto> (A1, scopes))\<rparr>
              in case updateGlobalScopes (length A1) A1 scopes (globalScopes sm1) of
                   None \<Rightarrow> None
                 | Some G \<Rightarrow> Some ((A1, scopes), sm1\<lparr>globalScopes := G\<rparr>))))"

definition buildScopeTree ::
  "symbol list \<Rightarrow> string \<Rightarrow> scope_manager \<Rightarrow> (scope_array \<times> scope_manager) option" where
  \<comment> \<open>\<open>[...symbols].sort((a, b) => a.line - b.line)\<close> is the stable sort by line\<close>
  "buildScopeTree syms filePath sm =
     storeScopes filePath (scopeForest (sort_key line syms)) sm"

definition sm_updateFile :: "string \<Rightarrow> scope_array \<Rightarrow> scope_manager \<Rightarrow> scope_manager option" where
  \<comment> \<open>\<open>ScopeManager.updateFile\<close>\<close>
  "sm_updateFile filePath scopes sm =
     (let sm1 = sm\<lparr>fileScopes := (fileScopes sm)(filePath \<mapsto> scopes)\<rparr>
      in case updateGlobalScopes (length (fst scopes)) (fst scopes) (snd scopes) (globalScopes sm1) of
           None \<Rightarrow> None
         | Some G \<Rightarrow> Some (sm1\<lparr>globalScopes := G\<rparr>))"

definition sm_removeFile :: "string \<Rightarrow> scope_manager \<Rightarrow> scope_manager option" where
  \<comment> \<open>\<open>ScopeManager.removeFile\<close>\<close>
  "sm_removeFile filePath sm =
     (case fileScopes sm filePath of
        None \<Rightarrow> Some sm
      | Some scopes \<Rightarrow>
          (case removeScopeFromGlobalIndex (length (fst scopes)) (fst scopes) (snd scopes)
                  (globalScopes sm) of
             None \<Rightarrow> None
           | Some G \<Rightarrow>
               Some (sm\<lparr>globalScopes := G, fileScopes := (fileScopes sm)(filePath := None)\<rparr>)))"

definition findScopeByName :: "scope_manager \<Rightarrow> string \<Rightarrow> scope_ref option" where
  "findScopeByName sm nm = globalScopes sm (Some nm)"

definition findScopeAtPosition :: "scope_manager \<Rightarrow> string \<Rightarrow> int \<Rightarrow> scope_ref option option" where
  \<comment> \<open>\<open>Some None\<close> is \<open>undefined\<close>\<close>
  "findScopeAtPosition sm filePath ln =
     (case fileScopes sm filePath of
        None \<Rightarrow> Some None
      | Some scopes \<Rightarrow>
          (case findScopeAtLine (length (fst scopes)) (fst scopes) (snd scopes) ln of
             None \<Rightarrow> None
           | Some None \<Rightarrow> Some None
           | Some (Some i) \<Rightarrow> Some (Some (fst scopes, i))))"


section \<open>The extension (extension.ts)\<close>

record extension =
  symbolDb :: symbol_db
  scopeManager :: scope_manager

definition initial :: extension where
  "initial = \<lparr>symbolDb = empty_db, scopeManager = empty_manager\<rparr>"

definition analyzeFile :: "string \<Rightarrow> symbol list \<Rightarrow> extension \<Rightarrow> extension option" where
  \<comment> \<open>\<open>analyzeFile(document)\<close>, with the symbols the parser returned for the document\<close>
  "analyzeFile fileName syms ext =
     (let db = updateFile fileName syms (symbolDb ext)
      in case buildScopeTree syms fileName (scopeManager ext) of
           None \<Rightarrow> None
         | Some (scopes, sm1) \<Rightarrow>
             (case sm_updateFile fileName scopes sm1 of
                None \<Rightarrow> None
              | Some sm2 \<Rightarrow> Some \<lparr>symbolDb = db, scopeManager = sm2\<rparr>))"

definition onDidDelete :: "string \<Rightarrow> extension \<Rightarrow> extension option" where
  \<comment> \<open>the handler of the file watcher for a deleted file\<close>
  "onDidDelete fsPath ext =
     (case sm_removeFile fsPath (scopeManager ext) of
        None \<Rightarrow> None
      | Some sm \<Rightarrow> Some \<lparr>symbolDb = removeFile fsPath (symbolDb ext), scopeManager = sm\<rparr>)"

datatype event = Analyze string "symbol list" | Delete string

fun handle :: "extension \<Rightarrow> event \<Rightarrow> extension option" where
  "handle ext (Analyze f syms) = analyzeFile f syms ext"
| "handle ext (Delete f) = onDidDelete f ext"

fun run_events :: "extension \<Rightarrow> event list \<Rightarrow> extension option" where
  "run_events ext [] = Some ext"
| "run_events ext (e # es) =
     (case handle ext e of None \<Rightarrow> None | Some ext1 \<Rightarrow> run_events ext1 es)"

fun parsed_event :: "event \<Rightarrow> bool" where
  "parsed_event (Analyze f syms) = list_all (\<lambda>s. src_file s = f) syms"
| "parsed_event (Delete f) = True"


section \<open>Go to definition (extension.ts, \<open>provideDefinition\<close>)\<close>

record location =
  loc_file :: string
  loc_line :: int
  loc_column :: int

datatype definition_result = OneLocation location | Locations "location list"

fun uniqueObjects :: "nat list \<Rightarrow> symbol list \<Rightarrow> symbol list" where
  \<comment> \<open>insertion into a \<open>Set\<close>: an object already seen is dropped, the first occurrence stays\<close>
  "uniqueObjects seen [] = []"
| "uniqueObjects seen (x # xs) =
     (if List.member seen (oid x) then uniqueObjects seen xs
      else x # uniqueObjects (oid x # seen) xs)"

definition js_set_spread :: "symbol list \<Rightarrow> symbol list" where
  \<comment> \<open>\<open>[...new Set(xs)]\<close>\<close>
  "js_set_spread xs = uniqueObjects [] xs"

definition getCandidateScopePaths :: "scope_ref option \<Rightarrow> string list option" where
  "getCandidateScopePaths sc =
     (case sc of
        None \<Rightarrow> Some ['''']
      | Some r \<Rightarrow>
          (case getScopeHierarchy r of
             None \<Rightarrow> None
           | Some hierarchy \<Rightarrow>
               (let names = map (\<lambda>i. scope_name (fst r ! i)) hierarchy;
                    paths = map (\<lambda>i. js_join (map js_string_of (take i names)) ''::'')
                              (rev [1..<Suc (length names)])
                in Some (paths @ ['''']))))"

definition candidateDefinitions :: "symbol_db \<Rightarrow> string \<Rightarrow> symbol list" where
  \<comment> \<open>\<open>defs\<close>\<close>
  "candidateDefinitions db word =
     (let targetName = getUnqualifiedName word;
          allDefs = findDefinitions db targetName;
          fqDefs = (if js_includes word ''::'' then findDefinitions db word else [])
      in js_set_spread (allDefs @ fqDefs))"

definition rankedTop :: "symbol list \<Rightarrow> string \<Rightarrow> string list \<Rightarrow> string \<Rightarrow> symbol list" where
  \<comment> \<open>\<open>top\<close>: \<open>sort((a, b) => b.score - a.score)\<close> is the stable sort by descending score,
      \<open>filter((_, i) => i < 5)\<close> keeps the first five\<close>
  "rankedTop defs fileName candidateScopes word =
     (let targetName = getUnqualifiedName word;
          ranked = sort_key (\<lambda>r. - snd r)
                     (map (\<lambda>d. (d, scoreDefinition d fileName candidateScopes word targetName)) defs)
      in map fst (take 5 ranked))"

definition toLocation :: "symbol \<Rightarrow> location" where
  "toLocation d = \<lparr>loc_file = src_file d, loc_line = line d, loc_column = column d\<rparr>"

definition provideDefinition ::
  "extension \<Rightarrow> string \<Rightarrow> int \<Rightarrow> string \<Rightarrow> definition_result option option" where
  \<comment> \<open>the provider on the state left by its first step, the analysis of the document, for
      the identifier \<open>word\<close> under the cursor; \<open>Some None\<close> is \<open>undefined\<close>\<close>
  "provideDefinition ext fileName ln word =
     (case findScopeAtPosition (scopeManager ext) fileName ln of
        None \<Rightarrow> None
      | Some currentScope \<Rightarrow>
          (case getCandidateScopePaths currentScope of
             None \<Rightarrow> None
           | Some candidateScopes \<Rightarrow>
               (let defs = candidateDefinitions (symbolDb ext) word
                in if length defs = 0 then Some None
                   else
                     (let locations = map toLocation (rankedTop defs fileName candidateScopes word)
                      in Some (Some (if length locations = 1 then OneLocation (locations ! 0)
                                     else Locations locations))))))"

fun locationsOf :: "definition_result \<Rightarrow> location list" where
  "locationsOf (OneLocation l) = [l]"
| "locationsOf (Locations ls) = ls"


section \<open>The array passed to \<open>buildScopeTree\<close>\<close>

text \<open>
  JavaScript arrays are objects: \<open>sort\<close> reorders the array it is called on. To say what
  \<open>buildScopeTree\<close> does to the array it is given, arrays of symbols live in a store, a list
  indexed by address. \<open>[...symbols]\<close> allocates a copy at the next address, and \<open>sort\<close>
  writes to the address it is called on.
\<close>

type_synonym array_store = "symbol list list"

definition spreadCopy :: "array_store \<Rightarrow> nat \<Rightarrow> array_store \<times> nat" where
  "spreadCopy H a = (H @ [H ! a], length H)"

definition sortByLine :: "array_store \<Rightarrow> nat \<Rightarrow> array_store" where
  "sortByLine H a = H[a := sort_key line (H ! a)]"

definition buildScopeTree_store ::
  "array_store \<Rightarrow> nat \<Rightarrow> string \<Rightarrow> scope_manager
     \<Rightarrow> (scope_array \<times> scope_manager \<times> array_store) option" where
  \<comment> \<open>\<open>buildScopeTree\<close> on the address of the array \<open>symbols\<close> in the store\<close>
  "buildScopeTree_store H symbolsAddr filePath sm =
     (case spreadCopy H symbolsAddr of (H1, sortedSymbols) \<Rightarrow>
        (let H2 = sortByLine H1 sortedSymbols
         in case storeScopes filePath (scopeForest (H2 ! sortedSymbols)) sm of
              None \<Rightarrow> None
            | Some (scopes, sm1) \<Rightarrow> Some (scopes, sm1, H2)))"


section \<open>Sample inputs\<close>

definition sample :: "string option \<Rightarrow> string \<Rightarrow> string \<Rightarrow> int \<Rightarrow> int \<Rightarrow> string \<Rightarrow> nat \<Rightarrow> symbol" where
  \<comment> \<open>a definition, as the parser builds one\<close>
  "sample n k f l c sc i =
     \<lparr>name = n, kind = k, src_file = f, line = l, column = c, scope = sc,
      type_str = None, signature = None, isDefinition = True, isDeclaration = False,
      references = [], oid = i\<rparr>"

definition sym_math :: symbol where
  "sym_math = sample (Some ''math'') ''namespace'' ''calc.cpp'' 0 0 '''' 0"

definition sym_Calculator :: symbol where
  "sym_Calculator = sample (Some ''Calculator'') ''class'' ''calc.cpp'' 1 4 ''math'' 1"

definition sym_add :: symbol where
  "sym_add = sample (Some ''add'') ''function'' ''calc.cpp'' 2 8 ''math::Calculator'' 2"


definition sym_nameless :: symbol where
  \<comment> \<open>a record built without the property \<open>name\<close>\<close>
  "sym_nameless = sample None ''variable'' ''a.cpp'' 3 0 '''' 10"

definition sym_count :: symbol where
  "sym_count = sample (Some ''count'') ''variable'' ''a.cpp'' 4 0 '''' 11"

definition sym_Foo :: symbol where
  "sym_Foo = sample (Some ''Foo'') ''class'' ''a.cpp'' 0 0 '''' 20"

definition sym_Bar :: symbol where
  "sym_Bar = sample (Some ''Bar'') ''class'' ''a.cpp'' 0 0 '''' 21"

definition sym_x_a :: symbol where
  \<comment> \<open>two records of the same name, file property and line, handed in under two other files\<close>
  "sym_x_a = sample (Some ''x'') ''variable'' ''z.h'' 1 0 '''' 30"

definition sym_x_b :: symbol where
  "sym_x_b = sample (Some ''x'') ''variable'' ''z.h'' 1 7 '''' 31"

definition ops_foreign :: "db_op list" where
  "ops_foreign = [UpdateFile ''a.cpp'' [sym_x_a], UpdateFile ''b.cpp'' [sym_x_b], RemoveFile ''b.cpp'']"

definition ops_parsed :: "db_op list" where
  "ops_parsed = [UpdateFile ''a.cpp'' [sym_Foo, sym_count], UpdateFile ''calc.cpp'' [sym_add],
                 RemoveFile ''calc.cpp'', UpdateFile ''a.cpp'' [sym_Bar]]"


definition evs_one :: "event list" where
  "evs_one = [Analyze ''a.cpp'' [sym_Foo, sym_count]]"

definition evs_shared :: "event list" where
  "evs_shared = [Analyze ''z.h'' [sym_x_a]]"

definition store_sample :: array_store where
  "store_sample = [[sym_add, sym_math, sym_Calculator]]"


definition sym_foo_a :: symbol where
  "sym_foo_a = sample (Some ''foo'') ''function'' ''a.cpp'' 0 0 '''' 40"

definition sym_foo_b :: symbol where
  "sym_foo_b = sample (Some ''foo'') ''function'' ''b.cpp'' 3 0 ''other'' 41"

definition evs_two :: "event list" where
  "evs_two = [Analyze ''a.cpp'' [sym_foo_a], Analyze ''b.cpp'' [sym_foo_b]]"


section \<open>Invariants of the name index\<close>

text \<open>
  \<open>del1 P xs\<close> is \<open>xs\<close> without its first element satisfying \<open>P\<close>: what \<open>findIndex\<close> and
  \<open>splice\<close> do together. \<open>place\<close> is the pair \<open>removeFile\<close> matches on, \<open>bview\<close> reads a
  bucket with the empty list for a missing key, and \<open>stored\<close> is the multiset of all records
  of the file table. \<open>db_inv\<close> holds in every state of the index; \<open>db_parsed\<close> holds when
  every record was handed in under the file it names.
\<close>

fun del1 :: "('a \<Rightarrow> bool) \<Rightarrow> 'a list \<Rightarrow> 'a list" where
  "del1 P [] = []"
| "del1 P (x # xs) = (if P x then xs else x # del1 P xs)"

definition place :: "symbol \<Rightarrow> string \<times> int" where
  "place s = (src_file s, line s)"

definition bview :: "(string option \<rightharpoonup> symbol list) \<Rightarrow> string option \<Rightarrow> symbol list" where
  "bview idx k = (case idx k of None \<Rightarrow> [] | Some bucket \<Rightarrow> bucket)"

definition no_empty_bucket :: "(string option \<rightharpoonup> symbol list) \<Rightarrow> bool" where
  "no_empty_bucket idx = (\<forall>k. idx k \<noteq> Some [])"

definition stored :: "symbol_db \<Rightarrow> symbol multiset" where
  "stored db = (\<Sum>f\<in>dom (symbols db). mset (getSymbolsInFile db f))"

definition db_inv :: "symbol_db \<Rightarrow> bool" where
  "db_inv db =
     (finite (dom (symbols db)) \<and> no_empty_bucket (symbolIndex db) \<and>
      (\<forall>k. image_mset place (mset (bview (symbolIndex db) k))
            = image_mset place (filter_mset (\<lambda>s. name s = k) (stored db))))"

definition db_parsed :: "symbol_db \<Rightarrow> bool" where
  "db_parsed db =
     (db_inv db \<and>
      (\<forall>g syms. symbols db g = Some syms \<longrightarrow> (\<forall>s\<in>set syms. src_file s = g)) \<and>
      (\<forall>k. mset (bview (symbolIndex db) k) = filter_mset (\<lambda>s. name s = k) (stored db)))"


section \<open>Invariants of the scope arenas\<close>

text \<open>
  In an arena built by \<open>buildScopeTree\<close> a child is allocated after its parent, so every
  \<open>children\<close> link goes to a greater index and every \<open>parent\<close> link to a smaller one.
\<close>

definition wf_arena :: "arena \<Rightarrow> bool" where
  "wf_arena A =
     (\<forall>i<length A. (\<forall>c\<in>set (children (A ! i)). i < c \<and> c < length A)
                   \<and> (\<forall>p. parent (A ! i) = Some p \<longrightarrow> p < i))"

definition loop_inv :: "arena \<times> nat list \<times> nat list \<Rightarrow> bool" where
  "loop_inv st =
     (case st of (A, scopes, scopeStack) \<Rightarrow>
        wf_arena A \<and> (\<forall>i\<in>set scopes. i < length A) \<and> (\<forall>i\<in>set scopeStack. i < length A))"

definition same_links :: "arena \<Rightarrow> arena \<Rightarrow> bool" where
  "same_links A' A =
     (length A' = length A \<and> map children A' = map children A \<and> map parent A' = map parent A)"

definition enough :: "nat \<Rightarrow> arena \<Rightarrow> nat list \<Rightarrow> bool" where
  "enough fuel A ids = (\<forall>i\<in>set ids. i < length A \<and> length A \<le> fuel + i)"

text \<open>
  \<open>globalEntries\<close> lists, in order, the entries that \<open>updateGlobalScopes\<close> sets, and
  \<open>setEntries\<close> sets them; \<open>withScopes\<close> is the manager after \<open>buildScopeTree\<close> or
  \<open>updateFile\<close> stored the scopes of a file.
\<close>

fun globalEntries :: "nat \<Rightarrow> arena \<Rightarrow> nat list \<Rightarrow> (string option \<times> scope_ref) list option" where
  "globalEntries fuel A [] = Some []"
| "globalEntries 0 A (i # rest) = None"
| "globalEntries (Suc fuel) A (i # rest) =
     (case globalEntries fuel A (children (A ! i)) of
        None \<Rightarrow> None
      | Some below \<Rightarrow>
          (case globalEntries (Suc fuel) A rest of
             None \<Rightarrow> None
           | Some after \<Rightarrow> Some ((scope_name (A ! i), (A, i)) # below @ after)))"

definition setEntries ::
  "(string option \<rightharpoonup> scope_ref) \<Rightarrow> (string option \<times> scope_ref) list \<Rightarrow> (string option \<rightharpoonup> scope_ref)" where
  "setEntries G kvs = foldl (\<lambda>G kv. G(fst kv \<mapsto> snd kv)) G kvs"

definition sm_inv :: "scope_manager \<Rightarrow> bool" where
  "sm_inv sm =
     ((\<forall>f A r. fileScopes sm f = Some (A, r) \<longrightarrow> wf_arena A \<and> (\<forall>i\<in>set r. i < length A))
      \<and> (\<forall>k A i. globalScopes sm k = Some (A, i) \<longrightarrow> wf_arena A \<and> i < length A))"

definition ext_inv :: "extension \<Rightarrow> bool" where
  "ext_inv ext = (db_inv (symbolDb ext) \<and> sm_inv (scopeManager ext))"

definition ext_parsed :: "extension \<Rightarrow> bool" where
  "ext_parsed ext = (db_parsed (symbolDb ext) \<and> sm_inv (scopeManager ext))"

definition withScopes ::
  "string \<Rightarrow> scope_array \<Rightarrow> (string option \<times> scope_ref) list \<Rightarrow> scope_manager \<Rightarrow> scope_manager" where
  "withScopes f scopes kvs sm =
     sm\<lparr>fileScopes := (fileScopes sm)(f \<mapsto> scopes),
        globalScopes := setEntries (globalScopes sm) kvs\<rparr>"

definition built_ok :: "scope_array \<Rightarrow> (string option \<times> scope_ref) list \<Rightarrow> bool" where
  "built_ok scopes kvs =
     (wf_arena (fst scopes) \<and> (\<forall>i\<in>set (snd scopes). i < length (fst scopes)) \<and>
      globalEntries (length (fst scopes)) (fst scopes) (snd scopes) = Some kvs \<and>
      (\<forall>kv\<in>set kvs. \<exists>j<length (fst scopes). snd kv = (fst scopes, j)))"


section \<open>The scoring function computes the table\<close>

lemma suffixBonus_eq:
  "suffixBonus cs sc score = score + bonus (list_ex (\<lambda>c. c \<noteq> [] \<and> suffix c sc) cs) 12"
  by (induction cs) (auto simp: bonus_def)

lemma list_ex_eq_mem: "list_ex (\<lambda>c. x = c) cs \<longleftrightarrow> x \<in> set cs"
  by (auto simp: list_ex_iff)

lemma prefix_sep_nonempty: "prefix (q @ ''::'') n \<Longrightarrow> n \<noteq> []"
  by auto

lemma occurs_sublist: "prefix p (drop i s) \<Longrightarrow> sublist p s"
proof -
  assume "prefix p (drop i s)"
  then obtain ss where "drop i s = p @ ss" by (auto simp: prefix_def)
  then have "s = take i s @ p @ ss" by (metis append_take_drop_id)
  then show ?thesis unfolding sublist_def by blast
qed

lemma js_includes_sublist: "js_includes s p \<longleftrightarrow> sublist p s"
proof
  assume "js_includes s p"
  then obtain i where "prefix p (drop i s)" by (auto simp: js_includes_def list_ex_iff)
  then show "sublist p s" by (rule occurs_sublist)
next
  assume "sublist p s"
  then obtain ps ss where s: "s = ps @ p @ ss" unfolding sublist_def by blast
  then have "prefix p (drop (length ps) s)" "length ps \<in> set [0..<Suc (length s)]"
    by simp_all
  then show "js_includes s p"
    unfolding js_includes_def list_ex_iff by blast
qed


lemma js_lastIndexOf_last:
  assumes "k \<le> length s" and "prefix p (drop k s)"
    and "\<And>j. k < j \<Longrightarrow> \<not> prefix p (drop j s)"
  shows "js_lastIndexOf s p = int k"
proof -
  from assms(1) obtain d where d: "length s = k + d" by (metis le_Suc_ex)
  have "[0..<k + Suc d] = [0..<k] @ [k..<k + Suc d]"
    by (rule upt_add_eq_append) simp
  moreover have "[k..<k + Suc d] = k # [Suc k..<k + Suc d]"
    by (simp add: upt_conv_Cons)
  ultimately have "[0..<Suc (length s)] = [0..<k] @ k # [Suc k..<Suc (length s)]"
    by (simp add: d)
  then have "rev [0..<Suc (length s)] = rev [Suc k..<Suc (length s)] @ k # rev [0..<k]"
    by simp
  moreover have "filter (\<lambda>i. prefix p (drop i s)) (rev [Suc k..<Suc (length s)]) = []"
  proof (rule filter_False, rule ballI)
    fix j
    assume "j \<in> set (rev [Suc k..<Suc (length s)])"
    then have "k < j" by auto
    then show "\<not> prefix p (drop j s)" by (rule assms(3))
  qed
  ultimately have "filter (\<lambda>i. prefix p (drop i s)) (rev [0..<Suc (length s)])
      = k # filter (\<lambda>i. prefix p (drop i s)) (rev [0..<k])"
    using assms(2) by simp
  then show ?thesis by (simp only: js_lastIndexOf_def list.case)
qed

lemma js_lastIndexOf_split:
  assumes "lastSeparatorSplit word q tail"
  shows "js_lastIndexOf word ''::'' = int (length q)"
proof -
  from assms have w: "word = q @ ''::'' @ tail" and n: "\<not> sublist ''::'' ('':'' @ tail)"
    by (simp_all add: lastSeparatorSplit_def)
  have a: "length q \<le> length (q @ ''::'' @ tail)" by simp
  have b: "prefix ''::'' (drop (length q) (q @ ''::'' @ tail))" by simp
  have c: "\<not> prefix ''::'' (drop j (q @ ''::'' @ tail))" if j: "length q < j" for j
  proof
    assume p: "prefix ''::'' (drop j (q @ ''::'' @ tail))"
    define m where "m = j - Suc (length q)"
    have m: "j = length q + Suc m" using j by (simp add: m_def)
    have "drop (length q + Suc m) (q @ ''::'' @ tail) = drop (Suc m) (''::'' @ tail)"
      by (simp only: drop_append length_drop drop_all order_refl append_Nil diff_add_inverse
          le_add1 drop_eq_Nil)
    also have "\<dots> = drop m ('':'' @ tail)" by simp
    finally have "drop j (q @ ''::'' @ tail) = drop m ('':'' @ tail)" unfolding m .
    with p have "prefix ''::'' (drop m ('':'' @ tail))" by (simp only:)
    then have "sublist ''::'' ('':'' @ tail)" by (rule occurs_sublist)
    with n show False by blast
  qed
  from js_lastIndexOf_last [OF a b c] show ?thesis unfolding w by blast
qed

lemma qualifierOf_split: "lastSeparatorSplit word q tail \<Longrightarrow> qualifierOf word = q"
  by (simp add: qualifierOf_def js_lastIndexOf_split) (simp add: lastSeparatorSplit_def)



lemma split_sublist: "lastSeparatorSplit word q tail \<Longrightarrow> sublist ''::'' word"
  unfolding lastSeparatorSplit_def sublist_def by blast

lemma last_separator_exists:
  assumes "sublist ''::'' word"
  shows "\<exists>q tail. lastSeparatorSplit word q tail"
proof -
  have "\<exists>q tail. lastSeparatorSplit (ps @ ''::'' @ ss) q tail" for ps ss
  proof (induction ss arbitrary: ps rule: length_induct)
    case (1 ss)
    show ?case
    proof (cases "sublist ''::'' ('':'' @ ss)")
      case False
      then show ?thesis unfolding lastSeparatorSplit_def by blast
    next
      case True
      then obtain a b where ab: "'':'' @ ss = a @ ''::'' @ b" unfolding sublist_def by blast
      show ?thesis
      proof (cases a)
        case Nil
        with ab have ss: "ss = '':'' @ b" by simp
        then have "length b < length ss" by simp
        with 1 obtain q tail where "lastSeparatorSplit ((ps @ '':'') @ ''::'' @ b) q tail"
          by blast
        then show ?thesis by (auto simp: ss)
      next
        case (Cons c a')
        with ab have ss: "ss = a' @ ''::'' @ b" by simp
        then have "length b < length ss" by simp
        with 1 obtain q tail where "lastSeparatorSplit ((ps @ ''::'' @ a') @ ''::'' @ b) q tail"
          by blast
        then show ?thesis by (auto simp: ss)
      qed
    qed
  qed
  with assms show ?thesis unfolding sublist_def by metis
qed



lemma scoreDefinition_table:
  "scoreDefinition def currentFile candidateScopes word targetName
     = tableScore def currentFile candidateScopes
         (if js_includes word ''::'' then Some (qualifierOf word) else None) targetName"
  by (cases "name def")
     (auto simp add: scoreDefinition_def tableScore_def suffixBonus_eq list_ex_eq_mem
        nameStartsWith_def nameEndsWith_def bonus_def Let_def dest: prefix_sep_nonempty)

lemma scoreDefinition_unqualified:
  assumes "\<not> sublist ''::'' word"
  shows "scoreDefinition def currentFile candidateScopes word targetName
           = tableScore def currentFile candidateScopes None targetName"
  using assms by (simp add: scoreDefinition_table js_includes_sublist)

lemma scoreDefinition_qualified:
  assumes "lastSeparatorSplit word q tail"
  shows "scoreDefinition def currentFile candidateScopes word targetName
           = tableScore def currentFile candidateScopes (Some q) targetName"
  using split_sublist [OF assms] qualifierOf_split [OF assms]
  by (simp add: scoreDefinition_table js_includes_sublist)

text \<open>
  C1: for every candidate, current file, list of candidate scope paths, identifier text
  and target name, \<open>scoreDefinition\<close> returns exactly the sum of the table's rows: with
  no qualifier rows for a text in which \<open>::\<close> does not occur, and with the qualifier rows
  taken at \<open>q\<close> for a text \<open>q::tail\<close> whose shown \<open>::\<close> is its last; every text in which \<open>::\<close>
  occurs is of that form. The scope-suffix row is awarded once however many entries
  match.
\<close>

theorem C1_score_is_table:
  "(\<not> sublist ''::'' word \<longrightarrow>
      scoreDefinition def currentFile candidateScopes word targetName
        = tableScore def currentFile candidateScopes None targetName)
   \<and> (\<forall>q tail. lastSeparatorSplit word q tail \<longrightarrow>
          scoreDefinition def currentFile candidateScopes word targetName
            = tableScore def currentFile candidateScopes (Some q) targetName)
   \<and> (sublist ''::'' word \<longrightarrow> (\<exists>q tail. lastSeparatorSplit word q tail))"
  using scoreDefinition_unqualified scoreDefinition_qualified last_separator_exists by blast

theorem C1_score_witness:
  "lastSeparatorSplit ''Calculator::add'' ''Calculator'' ''add''
   \<and> scoreDefinition sym_add ''calc.cpp'' [''math::Calculator'', ''math'', '''']
        ''Calculator::add'' ''add'' = 52"
proof -
  have h: "lastSeparatorSplit ''Calculator::add'' ''Calculator'' ''add''"
    by code_simp
  have "tableScore sym_add ''calc.cpp'' [''math::Calculator'', ''math'', '''']
          (Some ''Calculator'') ''add'' = 52"
    by code_simp
  moreover from h have
    "scoreDefinition sym_add ''calc.cpp'' [''math::Calculator'', ''math'', '''']
        ''Calculator::add'' ''add''
     = tableScore sym_add ''calc.cpp'' [''math::Calculator'', ''math'', '''']
        (Some ''Calculator'') ''add''"
    using C1_score_is_table [of "''Calculator::add''" sym_add "''calc.cpp''"
        "[''math::Calculator'', ''math'', '''']" "''add''"]
    by blast
  ultimately show ?thesis using h by simp
qed


section \<open>The name index follows the file table\<close>

lemma findIndex_None: "findIndex P xs = None \<longleftrightarrow> (\<forall>x\<in>set xs. \<not> P x)"
  by (induction xs) (auto split: option.splits)

lemma findIndex_splice: "findIndex P xs = Some i \<Longrightarrow> splice1 i xs = del1 P xs"
  by (induction xs arbitrary: i) (auto simp: splice1_def split: option.splits if_splits)

lemma del1_none: "\<forall>x\<in>set xs. \<not> P x \<Longrightarrow> del1 P xs = xs"
  by (induction xs) auto

lemma bview_unindex:
  "bview (unindexSymbol idx s) =
     (bview idx)(name s := del1 (\<lambda>e. place e = place s) (bview idx (name s)))"
proof
  fix k
  let ?P = "\<lambda>e. src_file e = src_file s \<and> line e = line s"
  have P: "(\<lambda>e. place e = place s) = ?P" by (auto simp: place_def)
  show "bview (unindexSymbol idx s) k =
     ((bview idx)(name s := del1 (\<lambda>e. place e = place s) (bview idx (name s)))) k"
  proof (cases "idx (name s)")
    case None
    then show ?thesis by (simp add: unindexSymbol_def bview_def)
  next
    case (Some b)
    show ?thesis
    proof (cases "findIndex ?P b")
      case None
      then have "del1 ?P b = b" by (simp add: findIndex_None del1_none)
      with None Some show ?thesis by (simp add: unindexSymbol_def bview_def P)
    next
      case (Some i)
      then have "splice1 i b = del1 ?P b" by (rule findIndex_splice)
      with Some \<open>idx (name s) = Some b\<close> show ?thesis
        by (auto simp: unindexSymbol_def bview_def P Let_def)
    qed
  qed
qed

lemma no_empty_unindex: "no_empty_bucket idx \<Longrightarrow> no_empty_bucket (unindexSymbol idx s)"
  by (auto simp: no_empty_bucket_def unindexSymbol_def Let_def split: option.splits)

lemma bview_index: "bview (indexSymbol idx s) = (bview idx)(name s := bview idx (name s) @ [s])"
  by (auto simp: indexSymbol_def bview_def Let_def fun_eq_iff split: option.splits)

lemma no_empty_index: "no_empty_bucket idx \<Longrightarrow> no_empty_bucket (indexSymbol idx s)"
  by (auto simp: no_empty_bucket_def indexSymbol_def Let_def split: option.splits)

lemma bview_foldl_index:
  "bview (foldl indexSymbol idx syms) k = bview idx k @ filter (\<lambda>s. name s = k) syms"
  by (induction syms arbitrary: idx) (auto simp: bview_index)

lemma no_empty_foldl_index:
  "no_empty_bucket idx \<Longrightarrow> no_empty_bucket (foldl indexSymbol idx syms)"
  by (induction syms arbitrary: idx) (auto simp: no_empty_index)

lemma no_empty_foldl_unindex:
  "no_empty_bucket idx \<Longrightarrow> no_empty_bucket (foldl unindexSymbol idx syms)"
  by (induction syms arbitrary: idx) (auto simp: no_empty_unindex)

lemma places_del1:
  "image_mset place (mset (del1 (\<lambda>e. place e = p) xs)) = image_mset place (mset xs) - {#p#}"
  by (induction xs) auto

lemma places_foldl_unindex:
  "image_mset place (mset (bview (foldl unindexSymbol idx old) k))
     = image_mset place (mset (bview idx k)) - image_mset place (mset (filter (\<lambda>s. name s = k) old))"
  by (induction old arbitrary: idx) (auto simp: bview_unindex places_del1)

lemma others_del1:
  "(\<And>e. P e \<Longrightarrow> \<not> Q e) \<Longrightarrow> filter Q (del1 P xs) = filter Q xs"
  by (induction xs) auto

lemma others_foldl_unindex:
  "\<forall>s\<in>set old. src_file s = f \<Longrightarrow>
   filter (\<lambda>e. src_file e \<noteq> f) (bview (foldl unindexSymbol idx old) k)
     = filter (\<lambda>e. src_file e \<noteq> f) (bview idx k)"
proof (induction old arbitrary: idx)
  case Nil
  then show ?case by simp
next
  case (Cons s old)
  have "filter (\<lambda>e. src_file e \<noteq> f) (bview (unindexSymbol idx s) k)
      = filter (\<lambda>e. src_file e \<noteq> f) (bview idx k)"
    using Cons.prems by (auto simp: bview_unindex place_def intro!: others_del1)
  with Cons show ?case by simp
qed

lemma index_of_view:
  "no_empty_bucket idx \<Longrightarrow> idx k = (if bview idx k = [] then None else Some (bview idx k))"
  by (auto simp: no_empty_bucket_def bview_def split: option.splits)

lemma stored_remove:
  assumes "finite (dom (symbols db))"
  shows "stored (db\<lparr>symbols := (symbols db)(f := None)\<rparr>) + mset (getSymbolsInFile db f) = stored db"
proof (cases "symbols db f")
  case None
  then have "(symbols db)(f := None) = symbols db" by (auto simp: fun_eq_iff)
  with None show ?thesis by (simp add: stored_def getSymbolsInFile_def)
next
  case (Some old)
  then have f: "f \<in> dom (symbols db)" by auto
  have "stored db = mset old + (\<Sum>g\<in>dom (symbols db) - {f}. mset (getSymbolsInFile db g))"
    using assms f Some by (simp add: stored_def sum.remove getSymbolsInFile_def)
  moreover have "stored (db\<lparr>symbols := (symbols db)(f := None)\<rparr>)
      = (\<Sum>g\<in>dom (symbols db) - {f}. mset (getSymbolsInFile db g))"
    unfolding stored_def by (rule sum.cong) (auto simp: getSymbolsInFile_def)
  ultimately show ?thesis using Some by (simp add: getSymbolsInFile_def)
qed

lemma stored_set:
  assumes "finite (dom (symbols db))"
  shows "stored (db\<lparr>symbols := (symbols db)(f \<mapsto> syms)\<rparr>)
           = stored (db\<lparr>symbols := (symbols db)(f := None)\<rparr>) + mset syms"
proof -
  have "stored (db\<lparr>symbols := (symbols db)(f \<mapsto> syms)\<rparr>)
      = mset syms + (\<Sum>g\<in>dom (symbols db) - {f}.
           mset (getSymbolsInFile (db\<lparr>symbols := (symbols db)(f \<mapsto> syms)\<rparr>) g))"
    using assms by (simp add: stored_def sum.insert_remove getSymbolsInFile_def)
  moreover have "(\<Sum>g\<in>dom (symbols db) - {f}.
           mset (getSymbolsInFile (db\<lparr>symbols := (symbols db)(f \<mapsto> syms)\<rparr>) g))
      = stored (db\<lparr>symbols := (symbols db)(f := None)\<rparr>)"
    unfolding stored_def by (rule sum.cong) (auto simp: getSymbolsInFile_def)
  ultimately show ?thesis by simp
qed

lemma in_stored:
  assumes "finite (dom (symbols db))"
  shows "s \<in># stored db \<longleftrightarrow> (\<exists>g syms. symbols db g = Some syms \<and> s \<in> set syms)"
proof -
  have "s \<in># stored db \<longleftrightarrow> (\<exists>g\<in>dom (symbols db). s \<in># mset (getSymbolsInFile db g))"
    unfolding stored_def using assms by (induction rule: finite_induct) auto
  also have "\<dots> \<longleftrightarrow> (\<exists>g syms. symbols db g = Some syms \<and> s \<in> set syms)"
    by (force simp: getSymbolsInFile_def dom_def)
  finally show ?thesis .
qed

lemma db_inv_empty: "db_inv empty_db"
  by (simp add: db_inv_def empty_db_def no_empty_bucket_def bview_def stored_def)

lemma db_inv_removeFile:
  assumes "db_inv db"
  shows "db_inv (removeFile f db)"
proof (cases "symbols db f")
  case None
  with assms show ?thesis by (simp add: removeFile_def)
next
  case (Some old)
  let ?db' = "removeFile f db"
  have fin: "finite (dom (symbols db))" using assms by (simp add: db_inv_def)
  have st: "stored db = stored ?db' + mset old"
    using stored_remove [OF fin, of f] Some
    by (simp add: removeFile_def getSymbolsInFile_def stored_def)
  have "image_mset place (mset (bview (symbolIndex ?db') k))
          = image_mset place (filter_mset (\<lambda>s. name s = k) (stored ?db'))" for k
  proof -
    have "image_mset place (mset (bview (symbolIndex ?db') k))
        = image_mset place (mset (bview (symbolIndex db) k))
            - image_mset place (mset (filter (\<lambda>s. name s = k) old))"
      using Some by (simp add: removeFile_def places_foldl_unindex)
    also have "image_mset place (mset (bview (symbolIndex db) k))
        = image_mset place (filter_mset (\<lambda>s. name s = k) (stored ?db'))
            + image_mset place (mset (filter (\<lambda>s. name s = k) old))"
      using assms st by (simp add: db_inv_def)
    finally show ?thesis by simp
  qed
  moreover have "no_empty_bucket (symbolIndex ?db')"
    using assms Some by (simp add: removeFile_def db_inv_def no_empty_foldl_unindex)
  moreover have "finite (dom (symbols ?db'))"
    using fin Some by (simp add: removeFile_def)
  ultimately show ?thesis by (simp add: db_inv_def)
qed

lemma symbols_updateFile:
  "symbols (updateFile f syms db) = (symbols db)(f \<mapsto> syms)"
  by (auto simp: updateFile_def removeFile_def Let_def fun_eq_iff split: option.splits)

lemma symbolIndex_updateFile:
  "symbolIndex (updateFile f syms db) = foldl indexSymbol (symbolIndex (removeFile f db)) syms"
  by (simp add: updateFile_def Let_def)

lemma symbols_removeFile:
  "symbols (removeFile f db) = (symbols db)(f := None)"
  by (auto simp: removeFile_def fun_eq_iff split: option.splits)

lemma stored_cong: "symbols db = symbols db' \<Longrightarrow> stored db = stored db'"
  by (simp add: stored_def getSymbolsInFile_def)

lemma stored_updateFile:
  assumes "finite (dom (symbols db))"
  shows "stored (updateFile f syms db) = stored (removeFile f db) + mset syms"
proof -
  have "stored (updateFile f syms db) = stored (db\<lparr>symbols := (symbols db)(f \<mapsto> syms)\<rparr>)"
    by (rule stored_cong) (simp add: symbols_updateFile)
  moreover have "stored (removeFile f db) = stored (db\<lparr>symbols := (symbols db)(f := None)\<rparr>)"
    by (rule stored_cong) (simp add: symbols_removeFile)
  ultimately show ?thesis using stored_set [OF assms] by simp
qed

lemma db_inv_updateFile:
  assumes "db_inv db"
  shows "db_inv (updateFile f syms db)"
proof -
  have r: "db_inv (removeFile f db)" using assms by (rule db_inv_removeFile)
  have fin: "finite (dom (symbols db))" using assms by (simp add: db_inv_def)
  have "image_mset place (mset (bview (symbolIndex (updateFile f syms db)) k))
      = image_mset place (filter_mset (\<lambda>s. name s = k) (stored (updateFile f syms db)))" for k
    using r by (simp add: symbolIndex_updateFile bview_foldl_index stored_updateFile [OF fin] db_inv_def)
  moreover have "no_empty_bucket (symbolIndex (updateFile f syms db))"
    using r by (simp add: symbolIndex_updateFile no_empty_foldl_index db_inv_def)
  moreover have "finite (dom (symbols (updateFile f syms db)))"
    using fin by (simp add: symbols_updateFile)
  ultimately show ?thesis by (simp add: db_inv_def)
qed

lemma run_ops_snoc: "run_ops (ops @ [x]) = apply_op (run_ops ops) x"
  by (simp add: run_ops_def)

lemma db_inv_run_ops: "db_inv (run_ops ops)"
proof (induction ops rule: rev_induct)
  case Nil
  show ?case by (simp add: run_ops_def db_inv_empty)
next
  case (snoc x ops)
  then show ?case
    by (cases x) (simp_all add: run_ops_snoc db_inv_updateFile db_inv_removeFile)
qed

lemma filter_mset_all: "\<forall>x\<in>#M. P x \<Longrightarrow> filter_mset P M = M"
  by (induction M) auto

lemma filter_mset_none: "\<forall>x\<in>#M. \<not> P x \<Longrightarrow> filter_mset P M = {#}"
  by (induction M) auto

lemma bucketOf_bview: "bucketOf db k = bview (symbolIndex db) k"
  by (simp add: bucketOf_def bview_def)

lemma stored_removeFile_others:
  assumes "db_parsed db" and "s \<in># stored (removeFile f db)"
  shows "src_file s \<noteq> f"
proof -
  have fin: "finite (dom (symbols (removeFile f db)))"
    using assms(1) by (simp add: db_parsed_def db_inv_def symbols_removeFile)
  from assms(2) obtain g syms where g: "symbols (removeFile f db) g = Some syms" "s \<in> set syms"
    using in_stored [OF fin] by blast
  then have "g \<noteq> f" "symbols db g = Some syms"
    by (auto simp: symbols_removeFile split: if_splits)
  with g assms(1) show ?thesis by (auto simp: db_parsed_def)
qed

lemma parsed_removeFile_view:
  assumes "db_parsed db"
  shows "bview (symbolIndex (removeFile f db)) k
           = filter (\<lambda>e. src_file e \<noteq> f) (bview (symbolIndex db) k)"
proof -
  let ?db' = "removeFile f db"
  have inv': "db_inv ?db'" using assms by (simp add: db_parsed_def db_inv_removeFile)
  have none: "src_file e \<noteq> f" if "e \<in> set (bview (symbolIndex ?db') k)" for e
  proof -
    have eq: "image_mset place (mset (bview (symbolIndex ?db') k))
        = image_mset place (filter_mset (\<lambda>s. name s = k) (stored ?db'))"
      using inv' by (simp add: db_inv_def)
    from that have "place e \<in># image_mset place (mset (bview (symbolIndex ?db') k))" by simp
    then have "place e \<in># image_mset place (filter_mset (\<lambda>s. name s = k) (stored ?db'))"
      unfolding eq .
    then obtain s where "s \<in># stored ?db'" "place s = place e" by auto
    with stored_removeFile_others [OF assms] show ?thesis by (auto simp: place_def)
  qed
  have "filter (\<lambda>e. src_file e \<noteq> f) (bview (symbolIndex ?db') k)
      = filter (\<lambda>e. src_file e \<noteq> f) (bview (symbolIndex db) k)"
  proof (cases "symbols db f")
    case None
    then show ?thesis by (simp add: removeFile_def)
  next
    case (Some old)
    with assms have "\<forall>s\<in>set old. src_file s = f" by (auto simp: db_parsed_def)
    with Some show ?thesis by (simp add: removeFile_def others_foldl_unindex)
  qed
  moreover have "filter (\<lambda>e. src_file e \<noteq> f) (bview (symbolIndex ?db') k)
      = bview (symbolIndex ?db') k"
    using none by (simp add: filter_id_conv)
  ultimately show ?thesis by simp
qed

lemma db_parsed_removeFile:
  assumes "db_parsed db"
  shows "db_parsed (removeFile f db)"
proof -
  let ?db' = "removeFile f db"
  have inv: "db_inv db" and inv': "db_inv ?db'"
    using assms by (simp_all add: db_parsed_def db_inv_removeFile)
  have fin: "finite (dom (symbols db))" using inv by (simp add: db_inv_def)
  have st: "stored db = stored ?db' + mset (getSymbolsInFile db f)"
    using stored_remove [OF fin, of f] stored_cong [of ?db' "db\<lparr>symbols := (symbols db)(f := None)\<rparr>"]
    by (simp add: symbols_removeFile)
  have old: "\<forall>s\<in>set (getSymbolsInFile db f). src_file s = f"
  proof (cases "symbols db f")
    case None
    then show ?thesis by (simp add: getSymbolsInFile_def)
  next
    case (Some syms)
    with assms show ?thesis by (auto simp: db_parsed_def getSymbolsInFile_def)
  qed
  have keep: "filter_mset (\<lambda>e. src_file e \<noteq> f) (stored db) = stored ?db'"
    using stored_removeFile_others [OF assms] old
    by (simp add: st filter_mset_all filter_mset_none)
  have "mset (bview (symbolIndex ?db') k) = filter_mset (\<lambda>s. name s = k) (stored ?db')" for k
  proof -
    have "mset (bview (symbolIndex ?db') k)
        = filter_mset (\<lambda>e. src_file e \<noteq> f) (filter_mset (\<lambda>s. name s = k) (stored db))"
      using assms by (simp add: parsed_removeFile_view [OF assms] db_parsed_def)
    also have "\<dots> = filter_mset (\<lambda>s. name s = k) (filter_mset (\<lambda>e. src_file e \<noteq> f) (stored db))"
      by (simp add: filter_filter_mset conj_commute)
    finally show ?thesis by (simp add: keep)
  qed
  moreover have "\<forall>g syms. symbols ?db' g = Some syms \<longrightarrow> (\<forall>s\<in>set syms. src_file s = g)"
    using assms by (auto simp: db_parsed_def symbols_removeFile split: if_splits)
  ultimately show ?thesis using inv' by (simp add: db_parsed_def)
qed

lemma db_parsed_updateFile:
  assumes "db_parsed db" and "\<forall>s\<in>set syms. src_file s = f"
  shows "db_parsed (updateFile f syms db)"
proof -
  have r: "db_parsed (removeFile f db)" using assms(1) by (rule db_parsed_removeFile)
  have fin: "finite (dom (symbols db))" using assms(1) by (simp add: db_parsed_def db_inv_def)
  have "mset (bview (symbolIndex (updateFile f syms db)) k)
      = filter_mset (\<lambda>s. name s = k) (stored (updateFile f syms db))" for k
    using r by (simp add: symbolIndex_updateFile bview_foldl_index stored_updateFile [OF fin]
        db_parsed_def)
  moreover have "\<forall>g ss. symbols (updateFile f syms db) g = Some ss \<longrightarrow> (\<forall>s\<in>set ss. src_file s = g)"
    using assms by (auto simp: db_parsed_def symbols_updateFile split: if_splits)
  moreover have "db_inv (updateFile f syms db)"
    using assms(1) by (simp add: db_parsed_def db_inv_updateFile)
  ultimately show ?thesis by (simp add: db_parsed_def)
qed

lemma db_parsed_empty: "db_parsed empty_db"
  using db_inv_empty by (simp add: db_parsed_def) (simp add: empty_db_def bview_def stored_def)

lemma db_parsed_run_ops: "list_all parsed_op ops \<Longrightarrow> db_parsed (run_ops ops)"
proof (induction ops rule: rev_induct)
  case Nil
  show ?case by (simp add: run_ops_def db_parsed_empty)
next
  case (snoc x ops)
  then show ?case
    by (cases x) (simp_all add: run_ops_snoc db_parsed_updateFile db_parsed_removeFile list_all_iff)
qed

lemma bview_updateFile:
  "bview (symbolIndex (updateFile f syms db)) k
     = bview (symbolIndex (removeFile f db)) k @ filter (\<lambda>s. name s = k) syms"
  by (simp add: symbolIndex_updateFile bview_foldl_index)

lemma index_eqI:
  assumes "no_empty_bucket a" "no_empty_bucket b" "\<And>k. bview a k = bview b k"
  shows "a = b"
proof
  fix k
  show "a k = b k"
    using index_of_view [OF assms(1), of k] index_of_view [OF assms(2), of k] assms(3) by simp
qed

lemma updateFile_twice:
  assumes "db_parsed db" and "\<forall>s\<in>set syms. src_file s = f"
  shows "updateFile f syms (updateFile f syms db) = updateFile f syms db"
proof -
  let ?db1 = "updateFile f syms db"
  have p1: "db_parsed ?db1" using assms by (rule db_parsed_updateFile)
  have p2: "db_parsed (updateFile f syms ?db1)" using p1 assms(2) by (rule db_parsed_updateFile)
  have v: "bview (symbolIndex (updateFile f syms ?db1)) k = bview (symbolIndex ?db1) k" for k
  proof -
    have "filter (\<lambda>e. src_file e \<noteq> f) (filter (\<lambda>s. name s = k) syms) = []"
      using assms(2) by (auto simp: filter_empty_conv)
    then show ?thesis
      by (simp add: bview_updateFile parsed_removeFile_view [OF p1]
          parsed_removeFile_view [OF assms(1)])
  qed
  have "symbolIndex (updateFile f syms ?db1) = symbolIndex ?db1"
    using p1 p2 v by (intro index_eqI) (simp_all add: db_parsed_def db_inv_def)
  moreover have "symbols (updateFile f syms ?db1) = symbols ?db1"
    by (simp add: symbols_updateFile)
  ultimately show ?thesis by (intro symbol_db.equality) simp_all
qed

lemma removeFile_only_there:
  assumes "db_inv db"
    and "\<forall>g syms. g \<noteq> f \<and> symbols db g = Some syms \<longrightarrow> (\<forall>s\<in>set syms. name s \<noteq> k)"
  shows "bview (symbolIndex (removeFile f db)) k = []"
proof -
  let ?db' = "removeFile f db"
  have inv': "db_inv ?db'" using assms(1) by (rule db_inv_removeFile)
  then have fin: "finite (dom (symbols ?db'))" by (simp add: db_inv_def)
  have "\<forall>s\<in>#stored ?db'. name s \<noteq> k"
  proof
    fix s
    assume "s \<in># stored ?db'"
    then obtain g syms where g: "symbols ?db' g = Some syms" "s \<in> set syms"
      using in_stored [OF fin] by blast
    then have "g \<noteq> f" "symbols db g = Some syms"
      by (auto simp: symbols_removeFile split: if_splits)
    with assms(2) g(2) show "name s \<noteq> k" by blast
  qed
  then have "filter_mset (\<lambda>s. name s = k) (stored ?db') = {#}"
    by (simp add: filter_mset_none)
  then have "image_mset place (mset (bview (symbolIndex ?db') k)) = {#}"
    using inv' by (simp add: db_inv_def)
  then show ?thesis by simp
qed


text \<open>
  C4, as the code has it: for every sequence of \<open>updateFile\<close> and \<open>removeFile\<close> from the empty
  index in which every record handed to \<open>updateFile(f, _)\<close> carries \<open>file = f\<close>, the bucket of
  every name holds, as a multiset, the records of that name of all stored files; every
  bucket entry is in the list of a stored file, and every stored record is in the bucket
  of its name.
\<close>

theorem C4_index_is_projection:
  assumes "list_all parsed_op ops"
  shows "(\<forall>k. mset (bucketOf (run_ops ops) k)
               = filter_mset (\<lambda>s. name s = k) (stored (run_ops ops)))
       \<and> (\<forall>k e. e \<in> set (bucketOf (run_ops ops) k) \<longrightarrow>
              (\<exists>g syms. symbols (run_ops ops) g = Some syms \<and> e \<in> set syms))
       \<and> (\<forall>g syms s. symbols (run_ops ops) g = Some syms \<and> s \<in> set syms \<longrightarrow>
              s \<in> set (bucketOf (run_ops ops) (name s)))"
proof -
  let ?db = "run_ops ops"
  have p: "db_parsed ?db" using assms by (rule db_parsed_run_ops)
  then have fin: "finite (dom (symbols ?db))" by (simp add: db_parsed_def db_inv_def)
  have m: "mset (bucketOf ?db k) = filter_mset (\<lambda>s. name s = k) (stored ?db)" for k
    using p by (simp add: db_parsed_def bucketOf_bview)
  have a: "\<exists>g syms. symbols ?db g = Some syms \<and> e \<in> set syms"
    if "e \<in> set (bucketOf ?db k)" for k e
  proof -
    from that have "e \<in># mset (bucketOf ?db k)" by simp
    then have "e \<in># stored ?db" unfolding m by simp
    then show ?thesis using in_stored [OF fin] by blast
  qed
  have b: "s \<in> set (bucketOf ?db (name s))"
    if "symbols ?db g = Some syms" "s \<in> set syms" for g syms s
  proof -
    from that have "s \<in># stored ?db" using in_stored [OF fin] by blast
    then have "s \<in># filter_mset (\<lambda>x. name x = name s) (stored ?db)" by simp
    then have "s \<in># mset (bucketOf ?db (name s))" unfolding m .
    then show ?thesis by simp
  qed
  from m a b show ?thesis by blast
qed

theorem C4_index_witness:
  "list_all parsed_op ops_parsed
   \<and> mset (bucketOf (run_ops ops_parsed) (Some ''Foo''))
       = filter_mset (\<lambda>s. name s = Some ''Foo'') (stored (run_ops ops_parsed))"
proof -
  have h: "list_all parsed_op ops_parsed"
    by (simp add: ops_parsed_def sym_Foo_def sym_count_def sym_add_def sym_Bar_def sample_def)
  from C4_index_is_projection [OF h] show ?thesis using h by blast
qed

text \<open>
  C4 as stated fails when a record's \<open>file\<close> property is not the file it is handed in
  under: \<open>removeFile\<close> matches by \<open>file\<close> and \<open>line\<close> and takes the first match, here the
  record of the other file, which stays stored and is in no bucket any more.
\<close>

theorem C4_foreign_record_counterexample:
  "getSymbolsInFile (run_ops ops_foreign) ''a.cpp'' = [sym_x_a]
   \<and> bucketOf (run_ops ops_foreign) (name sym_x_a) = [sym_x_b]
   \<and> sym_x_a \<notin> set (bucketOf (run_ops ops_foreign) (name sym_x_a))"
  by code_simp

text \<open>
  C8, as the code has it: \<open>updateFile\<close> does not look at the name. For every key, a name or
  the absent name, the bucket after \<open>updateFile(f, S)\<close> is the bucket after \<open>removeFile(f)\<close>
  followed by the records of \<open>S\<close> with that name property, in the order of \<open>S\<close>; the model
  has no error branch, as the code has none.
\<close>

theorem C8_every_record_indexed:
  "bucketOf (updateFile f syms db) k
     = bucketOf (removeFile f db) k @ filter (\<lambda>s. name s = k) syms"
  by (simp add: bucketOf_bview bview_updateFile)

theorem C8_indexed_witness:
  "bucketOf (updateFile ''a.cpp'' [sym_nameless, sym_count] empty_db) (Some ''count'')
     = [sym_count]"
proof -
  have "bucketOf (removeFile ''a.cpp'' empty_db) (Some ''count'') = []"
    by code_simp
  then show ?thesis
    using C8_every_record_indexed [of "''a.cpp''" "[sym_nameless, sym_count]" empty_db
        "Some ''count''"]
    by (simp add: sym_nameless_def sym_count_def sample_def)
qed

text \<open>
  C8 as stated fails: a record without name is put in the name index, under the key
  \<open>undefined\<close>.
\<close>

theorem C8_nameless_counterexample:
  "name sym_nameless = None
   \<and> symbolIndex (updateFile ''a.cpp'' [sym_nameless, sym_count] empty_db) None
       = Some [sym_nameless]"
  by code_simp

text \<open>
  C5 on the code: after the analysis of a file with a class \<open>Foo\<close> and a second analysis
  of the same file with a class \<open>Bar\<close> in its place, the file's list and the name index
  hold no \<open>Foo\<close>, and the scope registry still returns the scope of the first analysis
  under \<open>Foo\<close>.
\<close>

theorem C5_stale_scope_after_reanalysis:
  "(case run_events initial [Analyze ''a.cpp'' [sym_Foo], Analyze ''a.cpp'' [sym_Bar]] of
      None \<Rightarrow> False
    | Some ext \<Rightarrow>
        getSymbolsInFile (symbolDb ext) ''a.cpp'' = [sym_Bar] \<and>
        findSymbolsByName (symbolDb ext) ''Foo'' = [] \<and>
        findScopeByName (scopeManager ext) ''Foo''
          = Some ([(createScope sym_Foo)\<lparr>scope_symbols := [sym_Foo]\<rparr>], 0))"
  by code_simp

text \<open>
  C3, as the code has it: for a file whose symbols are a namespace, a class on a later
  line and a function on a line later still, \<open>findScopeAtPosition\<close> at the line of the
  function returns the scope that the function symbol itself opens: its name is the
  function's, its type is \<open>function\<close>, and it starts and ends at that line.
\<close>

theorem C3_scope_at_function_line:
  assumes "kind m = ''namespace''" and "kind c = ''class''" and "kind a = ''function''"
    and "line m < line c" and "line c < line a"
  shows "(case analyzeFile f [m, c, a] initial of
            None \<Rightarrow> False
          | Some ext \<Rightarrow>
              (case findScopeAtPosition (scopeManager ext) f (line a) of
                 Some (Some (A, i)) \<Rightarrow>
                   scope_name (A ! i) = name a \<and> scope_type (A ! i) = ''function''
                   \<and> startLine (A ! i) = line a \<and> endLine (A ! i) = line a
               | _ \<Rightarrow> False))"
  using assms
  by (simp add: analyzeFile_def buildScopeTree_def storeScopes_def scopeForest_def
      processSymbol_def isScopeSymbol_def createScope_def sm_updateFile_def
      findScopeAtPosition_def initial_def empty_manager_def Let_def)

theorem C3_scope_witness:
  "kind sym_math = ''namespace'' \<and> kind sym_Calculator = ''class'' \<and> kind sym_add = ''function''
   \<and> line sym_math < line sym_Calculator \<and> line sym_Calculator < line sym_add
   \<and> (case analyzeFile ''calc.cpp'' [sym_math, sym_Calculator, sym_add] initial of
         None \<Rightarrow> False
       | Some ext \<Rightarrow>
           (case findScopeAtPosition (scopeManager ext) ''calc.cpp'' (line sym_add) of
              Some (Some (A, i)) \<Rightarrow>
                scope_name (A ! i) = name sym_add \<and> scope_type (A ! i) = ''function''
                \<and> startLine (A ! i) = line sym_add \<and> endLine (A ! i) = line sym_add
            | _ \<Rightarrow> False))"
proof -
  have h: "kind sym_math = ''namespace''" "kind sym_Calculator = ''class''"
    "kind sym_add = ''function''" "line sym_math < line sym_Calculator"
    "line sym_Calculator < line sym_add"
    by (simp_all add: sym_math_def sym_Calculator_def sym_add_def sample_def)
  from C3_scope_at_function_line [OF h, of "''calc.cpp''"] h show ?thesis by simp
qed

text \<open>
  C3 as stated fails at lines 0, 1 and 2: the scope found at the line of \<open>add\<close> is the scope
  of \<open>add\<close>, not that of \<open>Calculator\<close>, and its path is \<open>add\<close>.
\<close>

theorem C3_scope_counterexample:
  "(case analyzeFile ''calc.cpp'' [sym_math, sym_Calculator, sym_add] initial of
      None \<Rightarrow> False
    | Some ext \<Rightarrow>
        (case findScopeAtPosition (scopeManager ext) ''calc.cpp'' (line sym_add) of
           Some (Some (A, i)) \<Rightarrow>
             scope_name (A ! i) = Some ''add'' \<and> getScopePath (A, i) = Some ''add''
         | _ \<Rightarrow> False))"
  by code_simp


section \<open>The traversals of a built arena return\<close>

lemma same_links_nth:
  "same_links A' A \<Longrightarrow> i < length A \<Longrightarrow>
     children (A' ! i) = children (A ! i) \<and> parent (A' ! i) = parent (A ! i)"
  by (metis same_links_def nth_map)

lemma same_links_refl: "same_links A A"
  by (simp add: same_links_def)

lemma same_links_trans: "same_links A'' A' \<Longrightarrow> same_links A' A \<Longrightarrow> same_links A'' A"
  by (simp add: same_links_def)

lemma wf_arenaI:
  assumes "\<And>i c. i < length A \<Longrightarrow> c \<in> set (children (A ! i)) \<Longrightarrow> i < c \<and> c < length A"
    and "\<And>i p. i < length A \<Longrightarrow> parent (A ! i) = Some p \<Longrightarrow> p < i"
  shows "wf_arena A"
  unfolding wf_arena_def using assms by blast

lemma wf_arena_childD:
  "wf_arena A \<Longrightarrow> i < length A \<Longrightarrow> c \<in> set (children (A ! i)) \<Longrightarrow> i < c \<and> c < length A"
  unfolding wf_arena_def by blast

lemma wf_arena_parentD:
  "wf_arena A \<Longrightarrow> i < length A \<Longrightarrow> parent (A ! i) = Some p \<Longrightarrow> p < i"
  unfolding wf_arena_def by blast

lemma wf_arena_links:
  assumes "same_links A' A" and "wf_arena A"
  shows "wf_arena A'"
proof (rule wf_arenaI)
  have len: "length A' = length A" using assms(1) by (simp add: same_links_def)
  fix i c
  assume a: "i < length A'" and b: "c \<in> set (children (A' ! i))"
  from a have i: "i < length A" by (simp only: len)
  have "children (A' ! i) = children (A ! i)" using same_links_nth [OF assms(1) i] by (rule conjunct1)
  with b have "c \<in> set (children (A ! i))" by (simp only:)
  from wf_arena_childD [OF assms(2) i this]
  show "i < c \<and> c < length A'" by (simp only: len)
next
  have len: "length A' = length A" using assms(1) by (simp add: same_links_def)
  fix i p
  assume a: "i < length A'" and b: "parent (A' ! i) = Some p"
  from a have i: "i < length A" by (simp only: len)
  have "parent (A' ! i) = parent (A ! i)" using same_links_nth [OF assms(1) i] by (rule conjunct2)
  with b have "parent (A ! i) = Some p" by (simp only:)
  then show "p < i" by (rule wf_arena_parentD [OF assms(2) i])
qed

lemma same_links_endLine:
  "i < length A \<Longrightarrow> same_links (A[i := (A ! i)\<lparr>endLine := e\<rparr>]) A"
  by (simp add: same_links_def map_update list_update_same_conv)

lemma popEnded_subset: "set (popEnded A st ln) \<subseteq> set st"
  by (induction st) auto

lemma wf_arena_append:
  assumes "wf_arena A" and "children sc = []" and "parent sc = None"
  shows "wf_arena (A @ [sc])"
proof (rule wf_arenaI)
  fix i c
  assume i: "i < length (A @ [sc])" and c: "c \<in> set (children ((A @ [sc]) ! i))"
  show "i < c \<and> c < length (A @ [sc])"
  proof (cases "i < length A")
    case True
    with c have "c \<in> set (children (A ! i))" by (simp add: nth_append)
    from wf_arena_childD [OF assms(1) True this] show ?thesis by simp
  next
    case False
    with i have "i = length A" by simp
    with c assms(2) show ?thesis by simp
  qed
next
  fix i p
  assume i: "i < length (A @ [sc])" and p: "parent ((A @ [sc]) ! i) = Some p"
  show "p < i"
  proof (cases "i < length A")
    case True
    with p have "parent (A ! i) = Some p" by (simp add: nth_append)
    from wf_arena_parentD [OF assms(1) True this] show ?thesis .
  next
    case False
    with i have "i = length A" by simp
    with p assms(3) show ?thesis by simp
  qed
qed

lemma wf_arena_child:
  assumes "wf_arena A" and "t < length A" and "children sc = []"
  shows "wf_arena (A[t := (A ! t)\<lparr>children := children (A ! t) @ [length A]\<rparr>]
                   @ [sc\<lparr>parent := Some t\<rparr>])"
    (is "wf_arena ?B")
proof (rule wf_arenaI)
  fix i c
  assume i: "i < length ?B" and c: "c \<in> set (children (?B ! i))"
  show "i < c \<and> c < length ?B"
  proof (cases "i < length A")
    case True
    show ?thesis
    proof (cases "i = t")
      case True
      with c assms(2) have "c \<in> set (children (A ! t)) \<or> c = length A"
        by (auto simp: nth_append)
      then show ?thesis
        using wf_arena_childD [OF assms(1) assms(2), of c] assms(2) True by auto
    next
      case False
      with c \<open>i < length A\<close> have "c \<in> set (children (A ! i))" by (simp add: nth_append)
      from wf_arena_childD [OF assms(1) \<open>i < length A\<close> this] show ?thesis by simp
    qed
  next
    case False
    with i have "i = length A" by simp
    with c assms(3) show ?thesis by (simp add: nth_append)
  qed
next
  fix i p
  assume i: "i < length ?B" and p: "parent (?B ! i) = Some p"
  show "p < i"
  proof (cases "i < length A")
    case True
    with p have "parent (A ! i) = Some p"
      by (cases "i = t") (simp_all add: nth_append)
    from wf_arena_parentD [OF assms(1) True this] show ?thesis .
  next
    case False
    with i have "i = length A" by simp
    with p assms(2) show ?thesis by (simp add: nth_append)
  qed
qed

lemma wf_arena_symbols:
  assumes "wf_arena A"
  shows "wf_arena (A[t := (A ! t)\<lparr>scope_symbols := ss\<rparr>])"
proof -
  have "same_links (A[t := (A ! t)\<lparr>scope_symbols := ss\<rparr>]) A"
    by (cases "t < length A")
       (simp_all add: same_links_def map_update list_update_same_conv list_update_beyond)
  then show ?thesis using assms by (rule wf_arena_links)
qed

lemma createScope_links: "children (createScope s) = []" "parent (createScope s) = None"
  by (simp_all add: createScope_def)

lemma processSymbol_inv:
  assumes "loop_inv st"
  shows "loop_inv (processSymbol st s)"
proof -
  obtain A scopes stack where st: "st = (A, scopes, stack)" by (cases st)
  from assms st have wf: "wf_arena A" and sc: "\<forall>i\<in>set scopes. i < length A"
    and sk: "\<forall>i\<in>set stack. i < length A"
    by (simp_all add: loop_inv_def)
  define mid where "mid =
     (if isScopeSymbol s then
        (let sc = createScope s; new = length A; stack1 = popEnded A stack (line s)
         in case stack1 of
              [] \<Rightarrow> (A @ [sc], scopes @ [new], [new])
            | tp # below \<Rightarrow>
                (A[tp := (A ! tp)\<lparr>children := children (A ! tp) @ [new]\<rparr>] @ [sc\<lparr>parent := Some tp\<rparr>],
                 scopes, new # stack1))
      else (A, scopes, stack))"
  have mid_inv: "loop_inv mid"
  proof (cases "isScopeSymbol s")
    case False
    then show ?thesis using wf sc sk by (simp add: mid_def loop_inv_def)
  next
    case True
    show ?thesis
    proof (cases "popEnded A stack (line s)")
      case Nil
      with True show ?thesis
        using wf sc by (auto simp: mid_def loop_inv_def Let_def createScope_links
            intro!: wf_arena_append less_SucI)
    next
      case (Cons tp below)
      then have "set (tp # below) \<subseteq> set stack" using popEnded_subset [of A stack "line s"] by simp
      then have tp: "tp < length A" and below: "\<forall>i\<in>set below. i < length A"
        using sk by auto
      from True Cons show ?thesis
        using wf sc tp below
        by (auto simp: mid_def loop_inv_def Let_def createScope_links
            intro!: wf_arena_child less_SucI)
    qed
  qed
  obtain A1 scopes1 stack2 where mid: "mid = (A1, scopes1, stack2)" by (cases mid)
  have ps: "processSymbol st s =
      (case stack2 of [] \<Rightarrow> (A1, scopes1, stack2)
       | tp # below \<Rightarrow>
           (A1[tp := (A1 ! tp)\<lparr>scope_symbols := scope_symbols (A1 ! tp) @ [s]\<rparr>], scopes1, stack2))"
    using mid by (simp add: processSymbol_def st mid_def)
  from mid_inv mid show ?thesis
    by (auto simp: ps loop_inv_def wf_arena_symbols split: list.splits)
qed

lemma scopeForest_inv: "loop_inv (scopeForest syms)"
proof -
  have "loop_inv st \<Longrightarrow> loop_inv (foldl processSymbol st syms)" for st
    by (induction syms arbitrary: st) (simp_all add: processSymbol_inv)
  moreover have "loop_inv ([], [], [])" by (simp add: loop_inv_def wf_arena_def)
  ultimately show ?thesis by (simp add: scopeForest_def)
qed

lemma enough_children:
  assumes "wf_arena A" and "enough (Suc fuel) A (i # rest)"
  shows "enough fuel A (children (A ! i))" and "enough (Suc fuel) A rest" and "i < length A"
proof -
  from assms(2) show i: "i < length A" and "enough (Suc fuel) A rest"
    by (simp_all add: enough_def)
  from assms(2) have f: "length A \<le> Suc fuel + i" by (simp add: enough_def)
  show "enough fuel A (children (A ! i))"
    unfolding enough_def
  proof
    fix c
    assume "c \<in> set (children (A ! i))"
    from wf_arena_childD [OF assms(1) i this] f
    show "c < length A \<and> length A \<le> fuel + c" by simp
  qed
qed

lemma enough_roots: "\<forall>i\<in>set ids. i < length A \<Longrightarrow> enough (length A) A ids"
  by (simp add: enough_def)

lemma enough_links: "same_links A' A \<Longrightarrow> enough fuel A ids \<Longrightarrow> enough fuel A' ids"
  by (simp add: enough_def same_links_def)

lemma enough_zero: "enough 0 A (i # rest) \<Longrightarrow> False"
  by (auto simp: enough_def)

lemma updateScopeEndLines_total:
  "wf_arena A \<Longrightarrow> enough fuel A ids \<Longrightarrow>
     \<exists>A'. updateScopeEndLines fuel A ids = Some A' \<and> same_links A' A"
proof (induction fuel A ids rule: updateScopeEndLines.induct)
  case (1 fuel A)
  then show ?case by (simp add: same_links_refl)
next
  case (2 A i rest)
  then show ?case using enough_zero by blast
next
  case (3 fuel A i rest)
  define sc where "sc = A ! i"
  define scopeSymbols where
    "scopeSymbols = filter (\<lambda>s. line s \<ge> startLine sc \<and> kind s \<noteq> scope_type sc) (scope_symbols sc)"
  define A1 where
    "A1 = (if length scopeSymbols > 0 then A[i := sc\<lparr>endLine := line (last scopeSymbols)\<rparr>] else A)"
  note e = enough_children [OF "3.prems"]
  have l1: "same_links A1 A"
    using e(3) by (simp add: A1_def sc_def same_links_endLine same_links_refl)
  then have wf1: "wf_arena A1" using "3.prems"(1) by (rule wf_arena_links)
  have ch: "children (A1 ! i) = children (A ! i)"
    using same_links_nth [OF l1 e(3)] by simp
  have "enough fuel A1 (children (A1 ! i))"
    using e(1) l1 by (simp add: ch enough_links)
  from "3.IH"(1) [OF sc_def scopeSymbols_def A1_def wf1 this]
  obtain A2 where A2: "updateScopeEndLines fuel A1 (children (A1 ! i)) = Some A2"
    and l2: "same_links A2 A1" by blast
  have l2': "same_links A2 A" using l2 l1 by (rule same_links_trans)
  have "wf_arena A2" using l2 wf1 by (rule wf_arena_links)
  moreover have "enough (Suc fuel) A2 rest" using e(2) l2' by (simp add: enough_links)
  ultimately obtain A3 where A3: "updateScopeEndLines (Suc fuel) A2 rest = Some A3"
    and l3: "same_links A3 A2"
    using "3.IH"(2) [OF sc_def scopeSymbols_def A1_def A2] by blast
  have "updateScopeEndLines (Suc fuel) A (i # rest)
      = (case updateScopeEndLines fuel A1 (children (A1 ! i)) of
           None \<Rightarrow> None
         | Some A2 \<Rightarrow> updateScopeEndLines (Suc fuel) A2 rest)"
    by (simp only: updateScopeEndLines.simps Let_def A1_def scopeSymbols_def sc_def)
  then have "updateScopeEndLines (Suc fuel) A (i # rest) = Some A3"
    using A2 A3 by simp
  moreover have "same_links A3 A" using l3 l2' by (rule same_links_trans)
  ultimately show ?case by blast
qed

lemma findScopeAtLine_total:
  "wf_arena A \<Longrightarrow> enough fuel A ids \<Longrightarrow>
     \<exists>r. findScopeAtLine fuel A ids ln = Some r \<and> (\<forall>j. r = Some j \<longrightarrow> j < length A)"
proof (induction fuel A ids ln rule: findScopeAtLine.induct)
  case (1 fuel A ln)
  then show ?case by simp
next
  case (2 A i rest ln)
  then show ?case using enough_zero by blast
next
  case (3 fuel A i rest ln)
  note e = enough_children [OF "3.prems"]
  show ?case
  proof (cases "ln \<ge> startLine (A ! i) \<and> ln \<le> endLine (A ! i)")
    case True
    from "3.IH"(1) [OF True "3.prems"(1) e(1)]
    obtain r where r: "findScopeAtLine fuel A (children (A ! i)) ln = Some r"
      and rj: "\<forall>j. r = Some j \<longrightarrow> j < length A" by blast
    show ?thesis
    proof (cases r)
      case None
      with r True e(3) show ?thesis by simp
    next
      case (Some c)
      with r True rj show ?thesis by simp
    qed
  next
    case False
    from False
    have "findScopeAtLine (Suc fuel) A (i # rest) ln = findScopeAtLine (Suc fuel) A rest ln"
      by auto
    with "3.IH"(2) [OF False "3.prems"(1) e(2)] show ?thesis by (simp only:)
  qed
qed

lemma setEntries_append: "setEntries G (xs @ ys) = setEntries (setEntries G xs) ys"
  by (simp add: setEntries_def)

lemma setEntries_Cons: "setEntries G (kv # kvs) = setEntries (G(fst kv \<mapsto> snd kv)) kvs"
  by (simp add: setEntries_def)

lemma updateGlobalScopes_entries:
  "updateGlobalScopes fuel A ids G
     = (case globalEntries fuel A ids of None \<Rightarrow> None | Some kvs \<Rightarrow> Some (setEntries G kvs))"
proof (induction fuel A ids G rule: updateGlobalScopes.induct)
  case (1 fuel A G)
  show ?case by (simp add: setEntries_def)
next
  case (2 A i rest G)
  show ?case by simp
next
  case (3 fuel A i rest G)
  let ?G1 = "G(scope_name (A ! i) \<mapsto> (A, i))"
  have ih1: "updateGlobalScopes fuel A (children (A ! i)) ?G1
      = (case globalEntries fuel A (children (A ! i)) of
           None \<Rightarrow> None | Some kvs \<Rightarrow> Some (setEntries ?G1 kvs))"
    by (rule "3.IH"(1))
  show ?case
  proof (cases "globalEntries fuel A (children (A ! i))")
    case None
    with ih1 have "updateGlobalScopes fuel A (children (A ! i)) ?G1 = None"
      by (simp only: option.case)
    with None show ?thesis
      by (simp only: updateGlobalScopes.simps globalEntries.simps option.case)
  next
    case (Some below)
    with ih1 have u: "updateGlobalScopes fuel A (children (A ! i)) ?G1
                        = Some (setEntries ?G1 below)"
      by (simp only: option.case)
    have ih2: "updateGlobalScopes (Suc fuel) A rest (setEntries ?G1 below)
      = (case globalEntries (Suc fuel) A rest of
           None \<Rightarrow> None | Some kvs \<Rightarrow> Some (setEntries (setEntries ?G1 below) kvs))"
      by (rule "3.IH"(2) [OF u])
    show ?thesis
    proof (cases "globalEntries (Suc fuel) A rest")
      case None
      with ih2 u Some show ?thesis
        by (simp only: updateGlobalScopes.simps globalEntries.simps option.case)
    next
      case (Some after)
      have "setEntries G ((scope_name (A ! i), (A, i)) # below @ after)
              = setEntries (setEntries ?G1 below) after"
        by (simp only: setEntries_Cons setEntries_append fst_conv snd_conv)
      with ih2 u Some \<open>globalEntries fuel A (children (A ! i)) = Some below\<close> show ?thesis
        by (simp only: updateGlobalScopes.simps globalEntries.simps option.case)
    qed
  qed
qed

lemma globalEntries_total:
  "wf_arena A \<Longrightarrow> enough fuel A ids \<Longrightarrow>
     \<exists>kvs. globalEntries fuel A ids = Some kvs \<and> (\<forall>kv\<in>set kvs. \<exists>j<length A. snd kv = (A, j))"
proof (induction fuel A ids rule: globalEntries.induct)
  case (1 fuel A)
  then show ?case by simp
next
  case (2 A i rest)
  then show ?case using enough_zero by blast
next
  case (3 fuel A i rest)
  note e = enough_children [OF "3.prems"]
  from "3.IH"(1) [OF "3.prems"(1) e(1)]
  obtain below where b: "globalEntries fuel A (children (A ! i)) = Some below"
    and bj: "\<forall>kv\<in>set below. \<exists>j<length A. snd kv = (A, j)" by blast
  from "3.IH"(2) [OF b "3.prems"(1) e(2)]
  obtain after where a: "globalEntries (Suc fuel) A rest = Some after"
    and aj: "\<forall>kv\<in>set after. \<exists>j<length A. snd kv = (A, j)" by blast
  from a b bj aj e(3) show ?case by auto
qed

lemma setEntries_cases:
  "setEntries G kvs k = G k \<or> (\<exists>kv\<in>set kvs. setEntries G kvs k = Some (snd kv))"
proof (induction kvs arbitrary: G)
  case Nil
  show ?case by (simp add: setEntries_def)
next
  case (Cons kv kvs)
  define G1 where "G1 = G(fst kv \<mapsto> snd kv)"
  have g1: "G1 k = (if k = fst kv then Some (snd kv) else G k)" by (simp add: G1_def)
  have c: "setEntries G (kv # kvs) k = setEntries G1 kvs k"
    by (simp only: setEntries_Cons G1_def)
  from Cons [of G1] g1 show ?case
    unfolding c by (cases "k = fst kv") auto
qed

lemma setEntries_twice: "setEntries (setEntries G kvs) kvs = setEntries G kvs"
proof -
  have m: "setEntries G kvs = G ++ map_of (rev kvs)" for G
  proof (induction kvs arbitrary: G)
    case Nil
    show ?case by (simp add: setEntries_def)
  next
    case (Cons kv kvs)
    define G1 where "G1 = G(fst kv \<mapsto> snd kv)"
    have "G1 ++ map_of (rev kvs) = G ++ map_of (rev (kv # kvs))"
      by (cases kv) (simp add: G1_def fun_eq_iff map_add_def split: option.splits)
    moreover have "setEntries G (kv # kvs) = setEntries G1 kvs"
      by (simp only: setEntries_Cons G1_def)
    ultimately show ?case using Cons [of G1] by simp
  qed
  have "(G ++ M) ++ M = G ++ M" for M :: "string option \<rightharpoonup> scope_ref"
    by (simp add: fun_eq_iff map_add_def split: option.splits)
  then show ?thesis by (simp only: m)
qed

lemma removeScope_total:
  "wf_arena A \<Longrightarrow> enough fuel A ids \<Longrightarrow>
     \<exists>G'. removeScopeFromGlobalIndex fuel A ids G = Some G' \<and> (\<forall>k. G' k = G k \<or> G' k = None)"
proof (induction fuel A ids G rule: removeScopeFromGlobalIndex.induct)
  case (1 fuel A G)
  then show ?case by simp
next
  case (2 A i rest G)
  then show ?case using enough_zero by blast
next
  case (3 fuel A i rest G)
  note e = enough_children [OF "3.prems"]
  from "3.IH"(1) [OF "3.prems"(1) e(1)]
  obtain G1 where g1: "removeScopeFromGlobalIndex fuel A (children (A ! i))
                         (G(scope_name (A ! i) := None)) = Some G1"
    and k1: "\<forall>k. G1 k = (G(scope_name (A ! i) := None)) k \<or> G1 k = None" by blast
  from "3.IH"(2) [OF g1 "3.prems"(1) e(2)]
  obtain G2 where g2: "removeScopeFromGlobalIndex (Suc fuel) A rest G1 = Some G2"
    and k2: "\<forall>k. G2 k = G1 k \<or> G2 k = None" by blast
  have "\<forall>k. G2 k = G k \<or> G2 k = None"
  proof
    fix k
    from k1 [rule_format, of k] k2 [rule_format, of k]
    show "G2 k = G k \<or> G2 k = None" by (cases "k = scope_name (A ! i)") auto
  qed
  with g1 g2 show ?case by simp
qed

lemma hierarchyLoop_total:
  "wf_arena A \<Longrightarrow> (\<forall>c. cur = Some c \<longrightarrow> c < length A \<and> c < fuel) \<Longrightarrow>
     \<exists>h. hierarchyLoop fuel A cur acc = Some h"
proof (induction fuel A cur acc rule: hierarchyLoop.induct)
  case (1 fuel A hierarchy)
  show ?case by simp
next
  case (2 A current hierarchy)
  then show ?case by simp
next
  case (3 fuel A current hierarchy)
  then have c: "current < length A" "current < Suc fuel" by simp_all
  have "\<forall>p. parent (A ! current) = Some p \<longrightarrow> p < length A \<and> p < fuel"
  proof (intro allI impI)
    fix p
    assume "parent (A ! current) = Some p"
    from wf_arena_parentD [OF "3.prems"(1) c(1) this] c
    show "p < length A \<and> p < fuel" by simp
  qed
  from "3.IH" [OF "3.prems"(1) this] show ?case by simp
qed

lemma getScopeHierarchy_total:
  assumes "wf_arena A" and "i < length A"
  shows "\<exists>h. getScopeHierarchy (A, i) = Some h"
proof -
  have "\<forall>p. parent (A ! i) = Some p \<longrightarrow> p < length A \<and> p < length A"
  proof (intro allI impI)
    fix p
    assume "parent (A ! i) = Some p"
    from wf_arena_parentD [OF assms this] assms(2)
    show "p < length A \<and> p < length A" by simp
  qed
  from hierarchyLoop_total [OF assms(1) this] show ?thesis
    by (simp add: getScopeHierarchy_def)
qed

lemma storeScopes_eq:
  assumes "loop_inv built"
  shows "\<exists>scopes kvs. built_ok scopes kvs \<and>
           (\<forall>sm. storeScopes f built sm = Some (scopes, withScopes f scopes kvs sm))"
proof -
  obtain A0 roots stack where b: "built = (A0, roots, stack)" by (cases built)
  with assms have wf0: "wf_arena A0" and r0: "\<forall>i\<in>set roots. i < length A0"
    by (simp_all add: loop_inv_def)
  from updateScopeEndLines_total [OF wf0 enough_roots [OF r0]]
  obtain A where A: "updateScopeEndLines (length A0) A0 roots = Some A" and l: "same_links A A0"
    by blast
  have wf: "wf_arena A" using l wf0 by (rule wf_arena_links)
  have len: "length A = length A0" using l by (simp add: same_links_def)
  have r: "\<forall>i\<in>set roots. i < length A" using r0 by (simp add: len)
  from globalEntries_total [OF wf enough_roots [OF r]]
  obtain kvs where k: "globalEntries (length A) A roots = Some kvs"
    and kj: "\<forall>kv\<in>set kvs. \<exists>j<length A. snd kv = (A, j)" by blast
  have "built_ok (A, roots) kvs" using wf r k kj by (simp add: built_ok_def)
  moreover have "storeScopes f built sm = Some ((A, roots), withScopes f (A, roots) kvs sm)" for sm
    using A k by (simp add: storeScopes_def b updateGlobalScopes_entries withScopes_def)
  ultimately show ?thesis by blast
qed

lemma sm_updateFile_eq:
  assumes "built_ok scopes kvs"
  shows "sm_updateFile f scopes sm = Some (withScopes f scopes kvs sm)"
  using assms by (simp add: sm_updateFile_def built_ok_def updateGlobalScopes_entries withScopes_def)

lemma withScopes_twice:
  "withScopes f scopes kvs (withScopes f scopes kvs sm) = withScopes f scopes kvs sm"
  by (simp add: withScopes_def setEntries_twice)

lemma analyzeFile_eq:
  "\<exists>scopes kvs. built_ok scopes kvs \<and>
     (\<forall>ext. analyzeFile f syms ext
        = Some \<lparr>symbolDb = updateFile f syms (symbolDb ext),
                 scopeManager = withScopes f scopes kvs (scopeManager ext)\<rparr>)"
proof -
  from storeScopes_eq [OF scopeForest_inv, of f "sort_key line syms"]
  obtain scopes kvs where ok: "built_ok scopes kvs"
    and st: "\<And>sm. buildScopeTree syms f sm = Some (scopes, withScopes f scopes kvs sm)"
    by (auto simp: buildScopeTree_def)
  have "analyzeFile f syms ext
        = Some \<lparr>symbolDb = updateFile f syms (symbolDb ext),
                 scopeManager = withScopes f scopes kvs (scopeManager ext)\<rparr>" for ext
    by (simp add: analyzeFile_def st sm_updateFile_eq [OF ok] withScopes_twice)
  with ok show ?thesis by blast
qed

lemma sm_inv_withScopes:
  assumes "sm_inv sm" and "built_ok scopes kvs"
  shows "sm_inv (withScopes f scopes kvs sm)"
proof -
  obtain A roots where sc: "scopes = (A, roots)" by (cases scopes)
  from assms(2) sc have wf: "wf_arena A" and r: "\<forall>i\<in>set roots. i < length A"
    and kj: "\<forall>kv\<in>set kvs. \<exists>j<length A. snd kv = (A, j)"
    by (simp_all add: built_ok_def)
  have g: "wf_arena B \<and> i < length B"
    if "setEntries (globalScopes sm) kvs k = Some (B, i)" for k B i
  proof -
    from setEntries_cases [of "globalScopes sm" kvs k]
    consider "setEntries (globalScopes sm) kvs k = globalScopes sm k"
      | kv where "kv \<in> set kvs" "setEntries (globalScopes sm) kvs k = Some (snd kv)"
      by blast
    then show ?thesis
    proof cases
      case 1
      with that assms(1) show ?thesis by (simp add: sm_inv_def)
    next
      case 2
      with that kj wf show ?thesis by auto
    qed
  qed
  have "wf_arena B \<and> (\<forall>i\<in>set rs. i < length B)"
    if "((fileScopes sm)(f \<mapsto> (A, roots))) h = Some (B, rs)" for h B rs
    using that assms(1) wf r by (auto simp: sm_inv_def split: if_splits)
  with g show ?thesis
    unfolding sm_inv_def withScopes_def sc by simp
qed

lemma sm_removeFile_total:
  assumes "sm_inv sm"
  shows "\<exists>sm'. sm_removeFile f sm = Some sm' \<and> sm_inv sm' \<and>
           fileScopes sm' = (fileScopes sm)(f := None)"
proof (cases "fileScopes sm f")
  case None
  then have "(fileScopes sm)(f := None) = fileScopes sm" by (auto simp: fun_eq_iff)
  with None assms show ?thesis by (simp add: sm_removeFile_def)
next
  case (Some scopes)
  obtain A roots where sc: "scopes = (A, roots)" by (cases scopes)
  from assms Some sc have wf: "wf_arena A" and r: "\<forall>i\<in>set roots. i < length A"
    by (auto simp: sm_inv_def)
  from removeScope_total [OF wf enough_roots [OF r], of "globalScopes sm"]
  obtain G where G: "removeScopeFromGlobalIndex (length A) A roots (globalScopes sm) = Some G"
    and k: "\<forall>k. G k = globalScopes sm k \<or> G k = None" by blast
  let ?sm' = "sm\<lparr>globalScopes := G, fileScopes := (fileScopes sm)(f := None)\<rparr>"
  have "sm_removeFile f sm = Some ?sm'"
    using Some sc G by (simp add: sm_removeFile_def)
  moreover have "sm_inv ?sm'"
  proof -
    have a: "wf_arena B \<and> (\<forall>i\<in>set rs. i < length B)"
      if "fileScopes ?sm' h = Some (B, rs)" for h B rs
    proof -
      from that have "fileScopes sm h = Some (B, rs)" by (simp split: if_splits)
      with assms show ?thesis by (simp add: sm_inv_def)
    qed
    have b: "wf_arena B \<and> i < length B"
      if "globalScopes ?sm' k' = Some (B, i)" for k' B i
    proof -
      from that k [rule_format, of k'] have "globalScopes sm k' = Some (B, i)" by auto
      with assms show ?thesis by (simp add: sm_inv_def)
    qed
    from a b show ?thesis unfolding sm_inv_def by blast
  qed
  ultimately show ?thesis by simp
qed

lemma sm_inv_empty: "sm_inv empty_manager"
  by (simp add: sm_inv_def empty_manager_def)

lemma handle_total:
  assumes "ext_inv ext"
  shows "\<exists>ext'. handle ext e = Some ext' \<and> ext_inv ext'"
proof (cases e)
  case (Analyze f syms)
  from analyzeFile_eq [of f syms] obtain scopes kvs where ok: "built_ok scopes kvs"
    and a: "analyzeFile f syms ext
        = Some \<lparr>symbolDb = updateFile f syms (symbolDb ext),
                 scopeManager = withScopes f scopes kvs (scopeManager ext)\<rparr>"
    by blast
  with assms Analyze show ?thesis
    by (simp add: ext_inv_def db_inv_updateFile sm_inv_withScopes)
next
  case (Delete f)
  from assms have "sm_inv (scopeManager ext)" by (simp add: ext_inv_def)
  from sm_removeFile_total [OF this, of f] obtain sm' where
    "sm_removeFile f (scopeManager ext) = Some sm'" "sm_inv sm'" by blast
  with assms Delete show ?thesis
    by (simp add: onDidDelete_def ext_inv_def db_inv_removeFile)
qed

lemma handle_parsed:
  assumes "ext_parsed ext" and "parsed_event e"
  shows "\<exists>ext'. handle ext e = Some ext' \<and> ext_parsed ext'"
proof (cases e)
  case (Analyze f syms)
  from analyzeFile_eq [of f syms] obtain scopes kvs where ok: "built_ok scopes kvs"
    and a: "analyzeFile f syms ext
        = Some \<lparr>symbolDb = updateFile f syms (symbolDb ext),
                 scopeManager = withScopes f scopes kvs (scopeManager ext)\<rparr>"
    by blast
  with assms Analyze show ?thesis
    by (simp add: ext_parsed_def db_parsed_updateFile sm_inv_withScopes list_all_iff)
next
  case (Delete f)
  from assms have "sm_inv (scopeManager ext)" by (simp add: ext_parsed_def)
  from sm_removeFile_total [OF this, of f] obtain sm' where
    "sm_removeFile f (scopeManager ext) = Some sm'" "sm_inv sm'" by blast
  with assms Delete show ?thesis
    by (simp add: onDidDelete_def ext_parsed_def db_parsed_removeFile)
qed

lemma run_events_total:
  "ext_inv ext \<Longrightarrow> \<exists>ext'. run_events ext evs = Some ext' \<and> ext_inv ext'"
proof (induction evs arbitrary: ext)
  case Nil
  then show ?case by simp
next
  case (Cons e evs)
  from handle_total [OF Cons.prems, of e] obtain ext1 where
    h: "handle ext e = Some ext1" and i: "ext_inv ext1" by blast
  from Cons.IH [OF i] h show ?case by simp
qed

lemma run_events_parsed:
  "ext_parsed ext \<Longrightarrow> list_all parsed_event evs \<Longrightarrow>
     \<exists>ext'. run_events ext evs = Some ext' \<and> ext_parsed ext'"
proof (induction evs arbitrary: ext)
  case Nil
  then show ?case by simp
next
  case (Cons e evs)
  from Cons.prems have e: "parsed_event e" and es: "list_all parsed_event evs" by simp_all
  from handle_parsed [OF Cons.prems(1) e] obtain ext1 where
    h: "handle ext e = Some ext1" and i: "ext_parsed ext1" by blast
  from Cons.IH [OF i es] h show ?case by simp
qed

lemma run_events_append:
  "run_events ext (xs @ ys)
     = (case run_events ext xs of None \<Rightarrow> None | Some ext1 \<Rightarrow> run_events ext1 ys)"
  by (induction xs arbitrary: ext) (simp_all split: option.splits)

lemma ext_inv_initial: "ext_inv initial"
  by (simp add: ext_inv_def initial_def db_inv_empty sm_inv_empty)

lemma ext_parsed_initial: "ext_parsed initial"
  by (simp add: ext_parsed_def initial_def db_parsed_empty sm_inv_empty)


section \<open>Re-analysis, deletion and the input array\<close>

lemma symbolDb_analyzeFile:
  "analyzeFile f syms ext = Some ext' \<Longrightarrow> symbolDb ext' = updateFile f syms (symbolDb ext)"
  using analyzeFile_eq [of f syms] by auto

lemma analyzeFile_twice:
  assumes "ext_parsed ext" and "\<forall>s\<in>set syms. src_file s = f"
  shows "\<exists>ext1. analyzeFile f syms ext = Some ext1 \<and> analyzeFile f syms ext1 = Some ext1
           \<and> ext_parsed ext1"
proof -
  from analyzeFile_eq [of f syms] obtain scopes kvs where ok: "built_ok scopes kvs"
    and a: "\<And>e. analyzeFile f syms e
        = Some \<lparr>symbolDb = updateFile f syms (symbolDb e),
                 scopeManager = withScopes f scopes kvs (scopeManager e)\<rparr>"
    by blast
  let ?ext1 = "\<lparr>symbolDb = updateFile f syms (symbolDb ext),
                 scopeManager = withScopes f scopes kvs (scopeManager ext)\<rparr>"
  from assms have p: "db_parsed (symbolDb ext)" by (simp add: ext_parsed_def)
  have "analyzeFile f syms ?ext1 = Some ?ext1"
    by (simp add: a updateFile_twice [OF p assms(2)] withScopes_twice)
  moreover have "ext_parsed ?ext1"
    using assms ok by (simp add: ext_parsed_def db_parsed_updateFile sm_inv_withScopes)
  ultimately show ?thesis using a [of ext] by simp
qed

lemma findSymbolsByName_bview: "findSymbolsByName db n = bview (symbolIndex db) (Some n)"
  by (simp add: findSymbolsByName_def bview_def)

text \<open>
  C6, as the code has it: after any sequence of analyses and deletions in which every
  record handed in for a file carries that file in its \<open>file\<close> property, analysing a file
  \<open>f\<close> with a list \<open>S\<close> of such records twice in a row leaves the same state as analysing
  it once: the same file table, name index, file scopes and scope registry.
\<close>

theorem C6_reanalysis_idempotent:
  assumes "list_all parsed_event evs" and "list_all (\<lambda>s. src_file s = f) syms"
  shows "\<exists>ext. run_events initial (evs @ [Analyze f syms]) = Some ext
              \<and> run_events initial (evs @ [Analyze f syms, Analyze f syms]) = Some ext"
proof -
  from run_events_parsed [OF ext_parsed_initial assms(1)]
  obtain ext0 where r: "run_events initial evs = Some ext0" and p: "ext_parsed ext0" by blast
  from assms(2) have "\<forall>s\<in>set syms. src_file s = f" by (simp add: list_all_iff)
  from analyzeFile_twice [OF p this]
  obtain ext1 where "analyzeFile f syms ext0 = Some ext1" "analyzeFile f syms ext1 = Some ext1"
    by blast
  with r show ?thesis by (simp add: run_events_append)
qed

theorem C6_reanalysis_witness:
  "list_all parsed_event evs_one
   \<and> list_all (\<lambda>s. src_file s = ''calc.cpp'') [sym_math, sym_Calculator, sym_add]
   \<and> run_events initial (evs_one @ [Analyze ''calc.cpp'' [sym_math, sym_Calculator, sym_add]]) \<noteq> None
   \<and> run_events initial (evs_one @ [Analyze ''calc.cpp'' [sym_math, sym_Calculator, sym_add],
                                       Analyze ''calc.cpp'' [sym_math, sym_Calculator, sym_add]])
       = run_events initial (evs_one @ [Analyze ''calc.cpp'' [sym_math, sym_Calculator, sym_add]])"
proof -
  have h1: "list_all parsed_event evs_one"
    by (simp add: evs_one_def sym_Foo_def sym_count_def sample_def)
  have h2: "list_all (\<lambda>s. src_file s = ''calc.cpp'') [sym_math, sym_Calculator, sym_add]"
    by (simp add: sym_math_def sym_Calculator_def sym_add_def sample_def)
  from C6_reanalysis_idempotent [OF h1 h2] h1 h2 show ?thesis by auto
qed

text \<open>
  C6 as stated fails for a list with a record whose \<open>file\<close> property is another stored
  file: the second \<open>updateFile\<close> removes, by \<open>file\<close> and \<open>line\<close>, the other file's entry
  and leaves its own record twice in the bucket.
\<close>

theorem C6_foreign_record_counterexample:
  "(case run_events initial (evs_shared @ [Analyze ''b.cpp'' [sym_x_b]]) of
      None \<Rightarrow> False
    | Some ext \<Rightarrow> bucketOf (symbolDb ext) (Some ''x'') = [sym_x_a, sym_x_b])
   \<and> (case run_events initial (evs_shared @ [Analyze ''b.cpp'' [sym_x_b], Analyze ''b.cpp'' [sym_x_b]]) of
      None \<Rightarrow> False
    | Some ext \<Rightarrow> bucketOf (symbolDb ext) (Some ''x'') = [sym_x_b, sym_x_b])"
  by code_simp

text \<open>
  C7: after any sequence of analyses and deletions, the deletion of a file \<open>f\<close> returns;
  afterwards \<open>findSymbolsByName\<close> is empty for every name that no other stored file has a
  record of, \<open>findScopeAtPosition(f, line)\<close> is undefined for every line, and no bucket of
  the name index is empty.
\<close>

theorem C7_remove_is_total:
  "\<exists>ext ext'. run_events initial evs = Some ext \<and> onDidDelete f ext = Some ext'
     \<and> (\<forall>n. (\<forall>g syms. g \<noteq> f \<and> symbols (symbolDb ext) g = Some syms
                  \<longrightarrow> (\<forall>s\<in>set syms. name s \<noteq> Some n))
            \<longrightarrow> findSymbolsByName (symbolDb ext') n = [])
     \<and> (\<forall>ln. findScopeAtPosition (scopeManager ext') f ln = Some None)
     \<and> (\<forall>k. symbolIndex (symbolDb ext') k \<noteq> Some [])"
proof -
  from run_events_total [OF ext_inv_initial, of evs]
  obtain ext where r: "run_events initial evs = Some ext" and i: "ext_inv ext" by blast
  from i have db: "db_inv (symbolDb ext)" and sm: "sm_inv (scopeManager ext)"
    by (simp_all add: ext_inv_def)
  from sm_removeFile_total [OF sm, of f] obtain sm' where
    s: "sm_removeFile f (scopeManager ext) = Some sm'"
    and fs: "fileScopes sm' = (fileScopes (scopeManager ext))(f := None)" by blast
  let ?ext' = "\<lparr>symbolDb = removeFile f (symbolDb ext), scopeManager = sm'\<rparr>"
  have d: "onDidDelete f ext = Some ?ext'" using s by (simp add: onDidDelete_def)
  have a: "findSymbolsByName (symbolDb ?ext') n = []"
    if "\<forall>g syms. g \<noteq> f \<and> symbols (symbolDb ext) g = Some syms
                  \<longrightarrow> (\<forall>s\<in>set syms. name s \<noteq> Some n)" for n
    using removeFile_only_there [OF db that] by (simp add: findSymbolsByName_bview)
  have b: "findScopeAtPosition (scopeManager ?ext') f ln = Some None" for ln
    by (simp add: findScopeAtPosition_def fs)
  have c: "symbolIndex (symbolDb ?ext') k \<noteq> Some []" for k
    using db_inv_removeFile [OF db, of f] by (simp add: db_inv_def no_empty_bucket_def)
  from r d a b c show ?thesis by blast
qed

theorem C7_remove_witness:
  "(case run_events initial evs_one of
      None \<Rightarrow> False
    | Some ext \<Rightarrow>
        (case onDidDelete ''a.cpp'' ext of
           None \<Rightarrow> False
         | Some ext' \<Rightarrow>
             findSymbolsByName (symbolDb ext') ''Foo'' = []
             \<and> findScopeAtPosition (scopeManager ext') ''a.cpp'' 0 = Some None
             \<and> symbolIndex (symbolDb ext') (Some ''Foo'') \<noteq> Some []))"
proof -
  from C7_remove_is_total [of evs_one "''a.cpp''"] obtain ext ext' where
    r: "run_events initial evs_one = Some ext" and d: "onDidDelete ''a.cpp'' ext = Some ext'"
    and a: "\<And>n. (\<forall>g syms. g \<noteq> ''a.cpp'' \<and> symbols (symbolDb ext) g = Some syms
                  \<longrightarrow> (\<forall>s\<in>set syms. name s \<noteq> Some n))
            \<Longrightarrow> findSymbolsByName (symbolDb ext') n = []"
    and b: "\<And>ln. findScopeAtPosition (scopeManager ext') ''a.cpp'' ln = Some None"
    and c: "\<And>k. symbolIndex (symbolDb ext') k \<noteq> Some []"
    by blast
  from r have "analyzeFile ''a.cpp'' [sym_Foo, sym_count] initial = Some ext"
    by (simp add: evs_one_def split: option.splits)
  then have "symbols (symbolDb ext) = (symbols (symbolDb initial))(''a.cpp'' \<mapsto> [sym_Foo, sym_count])"
    by (simp add: symbolDb_analyzeFile symbols_updateFile)
  then have "\<forall>g syms. g \<noteq> ''a.cpp'' \<and> symbols (symbolDb ext) g = Some syms
                  \<longrightarrow> (\<forall>s\<in>set syms. name s \<noteq> Some ''Foo'')"
    by (simp add: initial_def empty_db_def)
  from a [OF this] b [of 0] c [of "Some ''Foo''"] r d show ?thesis by simp
qed

text \<open>
  C10: \<open>buildScopeTree\<close>, called on the address of an array of the store, returns and
  leaves that array, and every other array that was in the store, as it was; the sorted
  copy is a new array. Its result is that of \<open>buildScopeTree\<close> on the array's content.
\<close>

theorem C10_input_array_unchanged:
  assumes "a < length H"
  shows "\<exists>scopes sm' H'. buildScopeTree_store H a f sm = Some (scopes, sm', H')
           \<and> H' ! a = H ! a
           \<and> (\<forall>b. b < length H \<longrightarrow> H' ! b = H ! b)
           \<and> buildScopeTree (H ! a) f sm = Some (scopes, sm')"
proof -
  let ?H2 = "(H @ [H ! a])[length H := sort_key line (H ! a)]"
  have s: "?H2 ! length H = sort_key line (H ! a)" by simp
  have k: "?H2 ! b = H ! b" if "b < length H" for b
    using that by (simp add: nth_append)
  from storeScopes_eq [OF scopeForest_inv, of f "sort_key line (H ! a)"]
  obtain scopes kvs where
    st: "\<And>m. storeScopes f (scopeForest (sort_key line (H ! a))) m
            = Some (scopes, withScopes f scopes kvs m)"
    by blast
  have "buildScopeTree_store H a f sm = Some (scopes, withScopes f scopes kvs sm, ?H2)"
    by (simp add: buildScopeTree_store_def spreadCopy_def sortByLine_def st)
  moreover have "buildScopeTree (H ! a) f sm = Some (scopes, withScopes f scopes kvs sm)"
    by (simp add: buildScopeTree_def st)
  ultimately show ?thesis using k assms by blast
qed

theorem C10_input_array_witness:
  "0 < length store_sample
   \<and> (case buildScopeTree_store store_sample 0 ''calc.cpp'' empty_manager of
        None \<Rightarrow> False
      | Some (scopes, sm', H') \<Rightarrow> H' ! 0 = [sym_add, sym_math, sym_Calculator])"
proof -
  have h: "0 < length store_sample" by (simp add: store_sample_def)
  from C10_input_array_unchanged [OF h, of "''calc.cpp''" empty_manager] h show ?thesis
    by (auto simp: store_sample_def)
qed


section \<open>The ranking of candidates\<close>



lemma insort_key_map:
  "insort_key f (g x) (map g xs) = map g (insort_key (\<lambda>y. f (g y)) x xs)"
  by (induction xs) auto

lemma sort_key_map:
  "sort_key f (map g xs) = map g (sort_key (\<lambda>y. f (g y)) xs)"
  by (induction xs) (simp_all add: insort_key_map)

lemma rankedTop_eq:
  "rankedTop defs fileName cs word
     = take 5 (sort_key (\<lambda>d. - scoreDefinition d fileName cs word (getUnqualifiedName word)) defs)"
  by (simp add: rankedTop_def Let_def sort_key_map take_map o_def)

lemma findScopeAtPosition_total:
  assumes "sm_inv sm"
  shows "\<exists>cur. findScopeAtPosition sm f ln = Some cur
           \<and> (\<forall>A i. cur = Some (A, i) \<longrightarrow> wf_arena A \<and> i < length A)"
proof (cases "fileScopes sm f")
  case None
  then show ?thesis by (simp add: findScopeAtPosition_def)
next
  case (Some scopes)
  obtain A roots where sc: "scopes = (A, roots)" by (cases scopes)
  from assms Some sc have wf: "wf_arena A" and r: "\<forall>i\<in>set roots. i < length A"
    by (auto simp: sm_inv_def)
  from findScopeAtLine_total [OF wf enough_roots [OF r], of ln]
  obtain res where f: "findScopeAtLine (length A) A roots ln = Some res"
    and j: "\<forall>j. res = Some j \<longrightarrow> j < length A" by blast
  show ?thesis
  proof (cases res)
    case None
    with Some sc f show ?thesis by (simp add: findScopeAtPosition_def)
  next
    case (Some i)
    with \<open>fileScopes sm f = Some scopes\<close> sc f j wf show ?thesis
      by (simp add: findScopeAtPosition_def)
  qed
qed

lemma getCandidateScopePaths_total:
  assumes "\<forall>A i. cur = Some (A, i) \<longrightarrow> wf_arena A \<and> i < length A"
  shows "\<exists>cs. getCandidateScopePaths cur = Some cs"
proof (cases cur)
  case None
  then show ?thesis by (simp add: getCandidateScopePaths_def)
next
  case (Some r)
  obtain A i where r: "r = (A, i)" by (cases r)
  with assms Some have "wf_arena A" "i < length A" by simp_all
  from getScopeHierarchy_total [OF this] obtain h where "getScopeHierarchy (A, i) = Some h"
    by blast
  with Some r show ?thesis by (simp add: getCandidateScopePaths_def Let_def)
qed

lemma locationsOf_pack:
  "locationsOf (if length ls = 1 then OneLocation (ls ! 0) else Locations ls) = ls"
  by (cases ls) auto

lemma provideDefinition_eq:
  assumes "sm_inv (scopeManager ext)"
  shows "\<exists>cur cs. findScopeAtPosition (scopeManager ext) fileName ln = Some cur
           \<and> getCandidateScopePaths cur = Some cs
           \<and> (candidateDefinitions (symbolDb ext) word = []
                \<longrightarrow> provideDefinition ext fileName ln word = Some None)
           \<and> (candidateDefinitions (symbolDb ext) word \<noteq> []
                \<longrightarrow> (\<exists>res. provideDefinition ext fileName ln word = Some (Some res)
                     \<and> locationsOf res
                         = map toLocation
                             (rankedTop (candidateDefinitions (symbolDb ext) word) fileName cs word)))"
proof -
  from findScopeAtPosition_total [OF assms, of fileName ln]
  obtain cur where c: "findScopeAtPosition (scopeManager ext) fileName ln = Some cur"
    and w: "\<forall>A i. cur = Some (A, i) \<longrightarrow> wf_arena A \<and> i < length A" by blast
  from getCandidateScopePaths_total [OF w] obtain cs where
    g: "getCandidateScopePaths cur = Some cs" by blast
  let ?defs = "candidateDefinitions (symbolDb ext) word"
  let ?ls = "map toLocation (rankedTop ?defs fileName cs word)"
  have a: "provideDefinition ext fileName ln word = Some None" if "?defs = []"
    using that c g by (simp add: provideDefinition_def)
  have b: "provideDefinition ext fileName ln word
             = Some (Some (if length ?ls = 1 then OneLocation (?ls ! 0) else Locations ?ls))"
    if "?defs \<noteq> []"
    using that c g by (simp add: provideDefinition_def Let_def)
  from c g a b locationsOf_pack [of ?ls] show ?thesis by metis
qed




lemma bonus_bounds: "0 \<le> k \<Longrightarrow> 0 \<le> bonus c k \<and> bonus c k \<le> k"
  by (simp add: bonus_def)

lemma table_gap:
  assumes "name d1 = name d2"
    and "list_ex (\<lambda>c. scope d1 = c) cs"
    and "\<not> list_ex (\<lambda>c. scope d2 = c) cs"
    and "\<not> list_ex (\<lambda>c. c \<noteq> [] \<and> suffix c (scope d2)) cs"
    and "src_file d2 \<noteq> f"
  shows "tableScore d2 f cs Q t < tableScore d1 f cs Q t"
proof -
  let ?N = "\<lambda>d. bonus (case Q of None \<Rightarrow> False | Some q \<Rightarrow> nameStartsWith d (q @ ''::'')) 15
               + bonus (name d = Some t) 2 + bonus (nameEndsWith d (''::'' @ t)) 1"
  let ?S = "\<lambda>d. case Q of None \<Rightarrow> False | Some q \<Rightarrow> suffix q (scope d)"
  have n: "?N d1 = ?N d2"
    using assms(1) by (cases Q) (simp_all add: nameStartsWith_def nameEndsWith_def)
  have "tableScore d2 f cs Q t
          = ?N d2 + bonus (?S d2) 10 + bonus (isDefinition d2 \<and> \<not> isDeclaration d2) 3"
    using assms(3-5) by (simp add: tableScore_def bonus_def)
  then have u: "tableScore d2 f cs Q t \<le> ?N d2 + 13"
    using bonus_bounds [of 10 "?S d2"]
      bonus_bounds [of 3 "isDefinition d2 \<and> \<not> isDeclaration d2"]
    by linarith
  have "tableScore d1 f cs Q t
          = ?N d1 + 20 + bonus (src_file d1 = f) 5
              + bonus (list_ex (\<lambda>c. c \<noteq> [] \<and> suffix c (scope d1)) cs) 12
              + bonus (?S d1) 10
              + bonus (isDefinition d1 \<and> \<not> isDeclaration d1) 3"
    using assms(2) by (simp add: tableScore_def bonus_def)
  then have l: "?N d1 + 20 \<le> tableScore d1 f cs Q t"
    using bonus_bounds [of 5 "src_file d1 = f"]
      bonus_bounds [of 12 "list_ex (\<lambda>c. c \<noteq> [] \<and> suffix c (scope d1)) cs"]
      bonus_bounds [of 10 "?S d1"]
      bonus_bounds [of 3 "isDefinition d1 \<and> \<not> isDeclaration d1"]
    by linarith
  from u l n show ?thesis by linarith
qed

lemma score_gap:
  assumes "name d1 = name d2"
    and "list_ex (\<lambda>c. scope d1 = c) cs"
    and "\<not> list_ex (\<lambda>c. scope d2 = c) cs"
    and "\<not> list_ex (\<lambda>c. c \<noteq> [] \<and> suffix c (scope d2)) cs"
    and "src_file d2 \<noteq> f"
  shows "scoreDefinition d2 f cs w t < scoreDefinition d1 f cs w t"
  unfolding scoreDefinition_table by (rule table_gap [OF assms])

lemma sorted_key_before:
  assumes "sorted (map key R)" and "d1 \<in> set R" and "key d1 < (key d2 :: int)"
    and "j < length R" and "R ! j = d2"
  shows "\<exists>i<j. R ! i = d1"
proof -
  from assms(2) obtain i where i: "i < length R" "R ! i = d1"
    by (auto simp: in_set_conv_nth)
  have "i < j"
  proof (rule ccontr)
    assume "\<not> i < j"
    then have "j \<le> i" by simp
    from sorted_nth_mono [OF assms(1) this] i assms(4)
    have "key (R ! j) \<le> key (R ! i)" by simp
    with i assms(3,5) show False by simp
  qed
  with i show ?thesis by blast
qed

text \<open>
  C9: after any sequence of analyses and deletions, for every identifier text, file and
  line, and every two candidates of the same name of which the first has its scope among
  the candidate scope paths and the second has not, ends with no non-empty one and lies
  in another file than the current one: wherever the second stands in the returned
  order, the first stands strictly before it.
\<close>

theorem C9_exact_scope_first:
  "\<exists>ext cur candidateScopes.
      run_events initial evs = Some ext
    \<and> findScopeAtPosition (scopeManager ext) fileName ln = Some cur
    \<and> getCandidateScopePaths cur = Some candidateScopes
    \<and> (let defs = candidateDefinitions (symbolDb ext) word;
            top = rankedTop defs fileName candidateScopes word
        in (defs \<noteq> [] \<longrightarrow>
              (\<exists>res. provideDefinition ext fileName ln word = Some (Some res)
                   \<and> locationsOf res = map toLocation top))
         \<and> (\<forall>d1 d2 j.
                d1 \<in> set defs \<and> d2 \<in> set defs \<and> name d1 = name d2
              \<and> list_ex (\<lambda>c. scope d1 = c) candidateScopes
              \<and> \<not> list_ex (\<lambda>c. scope d2 = c) candidateScopes
              \<and> \<not> list_ex (\<lambda>c. c \<noteq> [] \<and> suffix c (scope d2)) candidateScopes
              \<and> src_file d2 \<noteq> fileName
              \<and> j < length top \<and> top ! j = d2
              \<longrightarrow> (\<exists>i<j. top ! i = d1)))"
proof -
  from run_events_total [OF ext_inv_initial, of evs]
  obtain ext where r: "run_events initial evs = Some ext" and i: "ext_inv ext" by blast
  then have sm: "sm_inv (scopeManager ext)" by (simp add: ext_inv_def)
  let ?defs = "candidateDefinitions (symbolDb ext) word"
  from provideDefinition_eq [OF sm, of fileName ln word]
  obtain cur cs where c: "findScopeAtPosition (scopeManager ext) fileName ln = Some cur"
    and g: "getCandidateScopePaths cur = Some cs"
    and n: "?defs \<noteq> [] \<longrightarrow>
              (\<exists>res. provideDefinition ext fileName ln word = Some (Some res)
                 \<and> locationsOf res = map toLocation (rankedTop ?defs fileName cs word))"
    by blast
  let ?score = "\<lambda>d. scoreDefinition d fileName cs word (getUnqualifiedName word)"
  let ?R = "sort_key (\<lambda>d. - ?score d) ?defs"
  let ?top = "rankedTop ?defs fileName cs word"
  have t: "?top = take 5 ?R" by (rule rankedTop_eq)
  have p: "\<exists>i<j. ?top ! i = d1"
    if h: "d1 \<in> set ?defs" "name d1 = name d2"
      "list_ex (\<lambda>c. scope d1 = c) cs" "\<not> list_ex (\<lambda>c. scope d2 = c) cs"
      "\<not> list_ex (\<lambda>c. c \<noteq> [] \<and> suffix c (scope d2)) cs" "src_file d2 \<noteq> fileName"
      "j < length ?top" "?top ! j = d2" for d1 d2 j
  proof -
    from h(7) have j: "j < length ?R" "j < 5" by (simp_all add: t)
    with h(8) have rj: "?R ! j = d2" by (simp add: t)
    have "- ?score d1 < - ?score d2"
      using score_gap [OF h(2-6)] by simp
    from sorted_key_before [OF sorted_sort_key _ this j(1) rj] h(1)
    obtain i where "i < j" "?R ! i = d1" by auto
    with j have "?top ! i = d1" by (simp add: t)
    with \<open>i < j\<close> show ?thesis by blast
  qed
  from r c g n p show ?thesis unfolding Let_def by blast
qed

theorem C9_exact_scope_witness:
  "rankedTop (candidateDefinitions (symbolDb (the (run_events initial evs_two))) ''foo'')
       ''a.cpp'' [''''] ''foo'' ! 1 = sym_foo_b
   \<and> (\<exists>i<1. rankedTop (candidateDefinitions (symbolDb (the (run_events initial evs_two))) ''foo'')
                ''a.cpp'' [''''] ''foo'' ! i = sym_foo_a)"
proof -
  from C9_exact_scope_first [of evs_two "''a.cpp''" 5 "''foo''"]
  obtain ext cur cs where r: "run_events initial evs_two = Some ext"
    and c: "findScopeAtPosition (scopeManager ext) ''a.cpp'' 5 = Some cur"
    and g: "getCandidateScopePaths cur = Some cs"
    and p: "\<And>d1 d2 j.
                d1 \<in> set (candidateDefinitions (symbolDb ext) ''foo'')
              \<and> d2 \<in> set (candidateDefinitions (symbolDb ext) ''foo'') \<and> name d1 = name d2
              \<and> list_ex (\<lambda>c. scope d1 = c) cs
              \<and> \<not> list_ex (\<lambda>c. scope d2 = c) cs
              \<and> \<not> list_ex (\<lambda>c. c \<noteq> [] \<and> suffix c (scope d2)) cs
              \<and> src_file d2 \<noteq> ''a.cpp''
              \<and> j < length (rankedTop (candidateDefinitions (symbolDb ext) ''foo'') ''a.cpp'' cs ''foo'')
              \<and> rankedTop (candidateDefinitions (symbolDb ext) ''foo'') ''a.cpp'' cs ''foo'' ! j = d2
              \<Longrightarrow> \<exists>i<j. rankedTop (candidateDefinitions (symbolDb ext) ''foo'') ''a.cpp'' cs ''foo'' ! i = d1"
    unfolding Let_def by blast
  have e: "the (run_events initial evs_two) = ext" using r by simp
  have "findScopeAtPosition (scopeManager (the (run_events initial evs_two))) ''a.cpp'' 5 = Some None"
    by code_simp
  with c have "cur = None" unfolding e by simp
  with g have cs: "cs = ['''']" by (simp add: getCandidateScopePaths_def)
  have d: "candidateDefinitions (symbolDb (the (run_events initial evs_two))) ''foo''
             = [sym_foo_a, sym_foo_b]"
    by code_simp
  have t: "rankedTop [sym_foo_a, sym_foo_b] ''a.cpp'' [''''] ''foo'' = [sym_foo_a, sym_foo_b]"
    by code_simp
  have dd: "candidateDefinitions (symbolDb ext) ''foo'' = [sym_foo_a, sym_foo_b]"
    using d unfolding e .
  have tt: "rankedTop (candidateDefinitions (symbolDb ext) ''foo'') ''a.cpp'' cs ''foo''
              = [sym_foo_a, sym_foo_b]"
    by (simp only: dd cs t)
  have "\<exists>i<1. rankedTop (candidateDefinitions (symbolDb ext) ''foo'') ''a.cpp'' cs ''foo'' ! i
                 = sym_foo_a"
    by (rule p [of sym_foo_a sym_foo_b 1])
       (simp only: dd cs t, simp add: sym_foo_a_def sym_foo_b_def sample_def)
  then show ?thesis unfolding e dd cs t by simp
qed


end
